theory Spec2Isabelle
  imports Main "HOL-Library.AList"
begin

section \<open>Python string primitives used by the sources\<close>

text \<open>
  Strings are lists of characters.  The library operations the three modules
  (\<^verbatim>\<open>replacer.py\<close>, \<^verbatim>\<open>extractor.py\<close>, \<^verbatim>\<open>pii_detector.py\<close>) rely on are written out
  here on ASCII text: \<^verbatim>\<open>str.lower\<close>, \<^verbatim>\<open>str.upper\<close>, \<^verbatim>\<open>x in s\<close>, \<^verbatim>\<open>str.startswith\<close>,
  \<^verbatim>\<open>str.replace\<close>, \<^verbatim>\<open>str.split()\<close>, \<^verbatim>\<open>str.split(sep)\<close>, \<^verbatim>\<open>str.strip\<close>, \<^verbatim>\<open>sep.join\<close>,
  \<^verbatim>\<open>str(int)\<close> and \<^verbatim>\<open>os.path.splitext\<close>.
\<close>

definition uppercase_letters :: string where
  "uppercase_letters = ''ABCDEFGHIJKLMNOPQRSTUVWXYZ''"

definition lowercase_letters :: string where
  "lowercase_letters = ''abcdefghijklmnopqrstuvwxyz''"

definition is_upper :: "char \<Rightarrow> bool" where
  "is_upper c = (c \<in> set uppercase_letters)"

definition is_lower :: "char \<Rightarrow> bool" where
  "is_lower c = (c \<in> set lowercase_letters)"

definition is_digit :: "char \<Rightarrow> bool" where
  "is_digit c = (c \<in> set ''0123456789'')"

definition is_space :: "char \<Rightarrow> bool" where
  "is_space c =
     (c \<in> {CHR 0x09, CHR 0x0A, CHR 0x0B, CHR 0x0C, CHR 0x0D, CHR 0x1C, CHR 0x1D, CHR 0x1E, CHR 0x1F, CHR '' ''})"

definition char_lower :: "char \<Rightarrow> char" where
  "char_lower c = (case map_of (zip uppercase_letters lowercase_letters) c of Some d \<Rightarrow> d | None \<Rightarrow> c)"

definition char_upper :: "char \<Rightarrow> char" where
  "char_upper c = (case map_of (zip lowercase_letters uppercase_letters) c of Some d \<Rightarrow> d | None \<Rightarrow> c)"

definition lower :: "string \<Rightarrow> string" where
  "lower s = map char_lower s"

definition upper :: "string \<Rightarrow> string" where
  "upper s = map char_upper s"

fun startswith :: "string \<Rightarrow> string \<Rightarrow> bool" where
  "startswith s [] = True"
| "startswith [] (p # ps) = False"
| "startswith (c # cs) (p # ps) = (c = p \<and> startswith cs ps)"

text \<open>\<^verbatim>\<open>needle in hay\<close> on strings.\<close>

fun contains :: "string \<Rightarrow> string \<Rightarrow> bool" where
  "contains needle [] = (needle = [])"
| "contains needle (c # cs) = (startswith (c # cs) needle \<or> contains needle cs)"

text \<open>\<^verbatim>\<open>any(t in s for t in ts)\<close>.\<close>

definition any_in :: "string list \<Rightarrow> string \<Rightarrow> bool" where
  "any_in ts s = list_ex (\<lambda>t. contains t s) ts"

text \<open>\<^verbatim>\<open>s.replace(old, new)\<close> for a non-empty \<^verbatim>\<open>old\<close>: leftmost, non-overlapping.\<close>

fun replace :: "string \<Rightarrow> string \<Rightarrow> string \<Rightarrow> string" where
  "replace old new [] = []"
| "replace old new (c # cs) =
     (if old \<noteq> [] \<and> startswith (c # cs) old
      then new @ replace old new (drop (length old) (c # cs))
      else c # replace old new cs)"

text \<open>\<^verbatim>\<open>s.split()\<close>: maximal runs of non-whitespace characters.\<close>

fun split_ws_acc :: "string \<Rightarrow> string \<Rightarrow> string list" where
  "split_ws_acc cur [] = (if cur = [] then [] else [cur])"
| "split_ws_acc cur (c # cs) =
     (if is_space c then (if cur = [] then split_ws_acc [] cs else cur # split_ws_acc [] cs)
      else split_ws_acc (cur @ [c]) cs)"

definition split_ws :: "string \<Rightarrow> string list" where
  "split_ws s = split_ws_acc [] s"

text \<open>\<^verbatim>\<open>s.split(sep)\<close> for a one-character separator: always at least one piece.\<close>

fun split_on_acc :: "char \<Rightarrow> string \<Rightarrow> string \<Rightarrow> string list" where
  "split_on_acc sep cur [] = [cur]"
| "split_on_acc sep cur (c # cs) =
     (if c = sep then cur # split_on_acc sep [] cs else split_on_acc sep (cur @ [c]) cs)"

definition split_on :: "char \<Rightarrow> string \<Rightarrow> string list" where
  "split_on sep s = split_on_acc sep [] s"

definition strip :: "string \<Rightarrow> string" where
  "strip s = rev (dropWhile is_space (rev (dropWhile is_space s)))"

fun join :: "string \<Rightarrow> string list \<Rightarrow> string" where
  "join sep [] = []"
| "join sep [x] = x"
| "join sep (x # y # ys) = x @ sep @ join sep (y # ys)"

text \<open>\<^verbatim>\<open>str(n)\<close> for an integer.\<close>

definition digit_char :: "nat \<Rightarrow> char" where
  "digit_char d = ''0123456789'' ! d"

function str_nat :: "nat \<Rightarrow> string" where
  "str_nat n = (if n < 10 then [digit_char n] else str_nat (n div 10) @ [digit_char (n mod 10)])"
  by pat_completeness auto
termination
  by (relation "measure id") auto

declare str_nat.simps [simp del]

definition str_int :: "int \<Rightarrow> string" where
  "str_int i = (if i < 0 then CHR ''-'' # str_nat (nat (- i)) else str_nat (nat i))"

text \<open>
  \<^verbatim>\<open>os.path.splitext(p)[1]\<close> on a POSIX path: the suffix from the last dot of the last
  path component, when that dot comes after a character of the component that is not a dot;
  empty otherwise.
\<close>

definition basename_of :: "string \<Rightarrow> string" where
  "basename_of p = rev (takeWhile (\<lambda>c. c \<noteq> CHR ''/'') (rev p))"

definition splitext_ext :: "string \<Rightarrow> string" where
  "splitext_ext p =
     (let name = basename_of p
      in if CHR ''.'' \<in> set (dropWhile (\<lambda>c. c = CHR ''.'') name)
         then CHR ''.'' # rev (takeWhile (\<lambda>c. c \<noteq> CHR ''.'') (rev name))
         else [])"

definition endswith :: "string \<Rightarrow> string \<Rightarrow> bool" where
  "endswith s suffix = startswith (rev s) (rev suffix)"

section \<open>The replacement generator (\<^verbatim>\<open>replacer.py\<close>)\<close>

datatype py_error = IndexError

text \<open>
  The synthetic-data library and the \<^verbatim>\<open>random\<close> module are external.  They are taken
  as a record of generators over an abstract generator state \<open>'r\<close>; each draw returns the
  value and the advanced state.  \<^verbatim>\<open>random.choice(xs)\<close> is a drawn index reduced into range.
\<close>

record 'r faker_env =
  name_male :: "'r \<Rightarrow> string \<times> 'r"
  name_female :: "'r \<Rightarrow> string \<times> 'r"
  name_any :: "'r \<Rightarrow> string \<times> 'r"
  email_any :: "'r \<Rightarrow> string \<times> 'r"
  address_any :: "'r \<Rightarrow> string \<times> 'r"
  date_of_birth :: "nat \<Rightarrow> nat \<Rightarrow> 'r \<Rightarrow> (nat \<times> nat \<times> nat) \<times> 'r"
  random_int :: "int \<Rightarrow> int \<Rightarrow> 'r \<Rightarrow> int \<times> 'r"
  random_letters :: "nat \<Rightarrow> 'r \<Rightarrow> string \<times> 'r"
  random_letter :: "'r \<Rightarrow> char \<times> 'r"
  randint :: "int \<Rightarrow> int \<Rightarrow> 'r \<Rightarrow> int \<times> 'r"
  choice_index :: "nat \<Rightarrow> 'r \<Rightarrow> nat \<times> 'r"

text \<open>The instance state of \<^verbatim>\<open>SimplePIIFaker\<close>, with the generators' state beside it.\<close>

record 'r faker_state =
  replacement_cache :: "string \<rightharpoonup> string"
  current_patient_name :: "string option"
  rng :: "'r"

definition init_faker :: "'r \<Rightarrow> 'r faker_state" where
  "init_faker r = \<lparr>replacement_cache = Map.empty, current_patient_name = None, rng = r\<rparr>"

definition choice :: "'r faker_env \<Rightarrow> 'a list \<Rightarrow> 'r \<Rightarrow> 'a \<times> 'r" where
  "choice env xs r = (case choice_index env (length xs) r of (i, r') \<Rightarrow> (xs ! (i mod length xs), r'))"

text \<open>\<^verbatim>\<open>_generate_aadhaar\<close>: twelve digits, one draw each.\<close>

fun aadhaar_digits :: "'r faker_env \<Rightarrow> nat \<Rightarrow> 'r \<Rightarrow> string \<times> 'r" where
  "aadhaar_digits env 0 r = ([], r)"
| "aadhaar_digits env (Suc k) r =
     (case randint env 0 9 r of (d, r1) \<Rightarrow>
        (case aadhaar_digits env k r1 of (ds, r2) \<Rightarrow> (str_int d @ ds, r2)))"

definition generate_aadhaar :: "'r faker_env \<Rightarrow> 'r \<Rightarrow> string \<times> 'r" where
  "generate_aadhaar env r = aadhaar_digits env 12 r"

text \<open>\<^verbatim>\<open>_clean_for_email\<close>: \<^verbatim>\<open>re.sub(r'[^a-z]', '', name_part.lower())\<close>.\<close>

definition clean_for_email :: "string \<Rightarrow> string" where
  "clean_for_email name_part = filter is_lower (lower name_part)"

definition month_name :: "nat \<Rightarrow> string" where
  "month_name m =
     [''January'', ''February'', ''March'', ''April'', ''May'', ''June'', ''July'',
      ''August'', ''September'', ''October'', ''November'', ''December''] ! ((m - 1) mod 12)"

text \<open>\<^verbatim>\<open>strftime('%d %B %Y')\<close>.\<close>

definition strftime_dBY :: "nat \<times> nat \<times> nat \<Rightarrow> string" where
  "strftime_dBY d =
     (case d of (day, month, year) \<Rightarrow>
        (if day < 10 then ''0'' else []) @ str_nat day @ '' '' @ month_name month @ '' '' @ str_nat year)"

definition is_patient_label :: "string \<Rightarrow> bool" where
  "is_patient_label label = (contains ''patient name'' (lower label) \<or> lower label = ''name'')"

definition name_titles_male :: "string list" where
  "name_titles_male = [''mr.'', ''mr'', ''shri'', ''sri'']"

definition name_titles_female :: "string list" where
  "name_titles_female = [''mrs.'', ''ms.'', ''miss'', ''smt'', ''dr.'']"

definition domain_options :: "string list" where
  "domain_options = [''example.com'', ''example.org'', ''test.com'', ''sample.org'', ''demo.net'']"

text \<open>The name branch, lines 42 to 54: returns the value and the state with the anchor set.\<close>

definition gen_name :: "'r faker_env \<Rightarrow> string \<Rightarrow> string \<Rightarrow> 'r faker_state \<Rightarrow> string \<times> 'r faker_state" where
  "gen_name env label original_value s =
     (let (fake_value, r') =
            (if any_in name_titles_male (lower original_value) then name_male env (rng s)
             else if any_in name_titles_female (lower original_value) then
               (if contains ''dr.'' (lower original_value)
                then (case name_any env (rng s) of (n, r1) \<Rightarrow> (''Dr. '' @ n, r1))
                else name_female env (rng s))
             else name_any env (rng s));
          s1 = s\<lparr>rng := r'\<rparr>
      in if is_patient_label label
         then (fake_value, s1\<lparr>current_patient_name := Some fake_value\<rparr>)
         else (fake_value, s1))"

text \<open>The tokens the email branch takes from the anchor, line 66.\<close>

definition name_parts_of :: "string \<Rightarrow> string list" where
  "name_parts_of anchor = split_ws (replace ''dr. '' [] (lower anchor))"

text \<open>The email branch, lines 65 to 78.  \<^verbatim>\<open>name_parts[0]\<close> on an empty list raises.\<close>

definition gen_email :: "'r faker_env \<Rightarrow> 'r faker_state \<Rightarrow> py_error + (string \<times> 'r faker_state)" where
  "gen_email env s =
     (case current_patient_name s of
        None \<Rightarrow> (case email_any env (rng s) of (e, r') \<Rightarrow> Inr (e, s\<lparr>rng := r'\<rparr>))
      | Some anchor \<Rightarrow>
          if anchor = [] then (case email_any env (rng s) of (e, r') \<Rightarrow> Inr (e, s\<lparr>rng := r'\<rparr>))
          else
            (let name_parts = name_parts_of anchor in
             if length name_parts \<ge> 2 then
               (let first_name = clean_for_email (hd name_parts);
                    last_name = clean_for_email (last name_parts)
                in case choice env domain_options (rng s) of
                     (domain, r') \<Rightarrow> Inr (first_name @ ''.'' @ last_name @ ''@'' @ domain, s\<lparr>rng := r'\<rparr>))
             else
               (case name_parts of
                  [] \<Rightarrow> Inl IndexError
                | p # _ \<Rightarrow>
                    (case choice env [''example.com'', ''example.org'', ''test.com''] (rng s) of
                       (domain, r') \<Rightarrow> Inr (clean_for_email p @ ''@'' @ domain, s\<lparr>rng := r'\<rparr>)))))"

text \<open>The doctor branch, lines 57 to 61.\<close>

definition specialties :: "string list" where
  "specialties = [''Cardiologist'', ''Neurologist'', ''Orthopedist'', ''Dermatologist'', ''Pediatrician'']"

definition gen_doctor :: "'r faker_env \<Rightarrow> 'r \<Rightarrow> string \<times> 'r" where
  "gen_doctor env r =
     (case name_any env r of (name, r1) \<Rightarrow>
        (case choice env specialties r1 of (specialty, r2) \<Rightarrow>
           (''Dr. '' @ name @ '', '' @ specialty, r2)))"

definition medical_state_codes :: "string list" where
  "medical_state_codes = [''MH'', ''DL'', ''KA'', ''TN'', ''UP'', ''GJ'', ''RJ'', ''WB'', ''AP'', ''MP'']"

definition driver_state_codes :: "string list" where
  "driver_state_codes = [''DL'', ''MH'', ''KA'', ''TN'', ''UP'', ''GJ'', ''RJ'']"

definition insurance_words :: "string list" where
  "insurance_words = [''insurance'', ''assurance'', ''life'', ''general'', ''health'', ''medical'']"

definition insurance_names :: "string list" where
  "insurance_names =
     [''Apollo Munich Health Insurance'', ''HDFC Life Insurance'', ''Max Life Insurance'',
      ''SBI Life Insurance'', ''ICICI Prudential Life Insurance'', ''Bajaj Allianz Life Insurance'',
      ''LIC of India'', ''Star Health Insurance'', ''New India Assurance'']"

text \<open>
  The generic fallback, lines 157 and 158:
  \<^verbatim>\<open>re.sub(r'[^A-Z0-9_]', '_', label.upper().replace(' ', '_'))\<close> in brackets.
\<close>

definition safe_label :: "string \<Rightarrow> string" where
  "safe_label label =
     map (\<lambda>c. if is_upper c \<or> is_digit c \<or> c = CHR ''_'' then c else CHR ''_'')
       (replace '' '' ''_'' (upper label))"

definition generic_placeholder :: "string \<Rightarrow> string" where
  "generic_placeholder label = ''[FAKE_'' @ safe_label label @ '']''"

definition prefixed_int :: "string \<Rightarrow> int \<times> 'r \<Rightarrow> string \<times> 'r" where
  "prefixed_int pre d = (case d of (n, r') \<Rightarrow> (pre @ str_int n, r'))"

text \<open>
  The branches from the contact information down to the fallback, lines 81 to 158.
  None of them reads or writes the instance state; they only draw.
\<close>

definition gen_plain :: "'r faker_env \<Rightarrow> string \<Rightarrow> string \<Rightarrow> 'r \<Rightarrow> string \<times> 'r" where
  "gen_plain env label original_value r =
     (let label_lower = lower label in
      if contains ''phone number'' label_lower \<or> contains ''mobile number'' label_lower then
        prefixed_int ''+91-'' (randint env 6000000000 9999999999 r)
      else if contains ''address'' label_lower \<or> contains ''location'' label_lower then
        (case address_any env r of (a, r') \<Rightarrow> (replace [CHR 0x0A] '', '' a, r'))
      else if contains ''hospital id'' label_lower then
        prefixed_int ''HOSP-'' (randint env 1000000 9999999 r)
      else if contains ''patient id'' label_lower then
        prefixed_int ''PAT-'' (randint env 100000 999999 r)
      else if contains ''medical record number'' label_lower \<or> contains ''mrn'' label_lower then
        prefixed_int ''MRN'' (randint env 100000 9999999 r)
      else if contains ''insurance id'' label_lower \<or> contains ''policy number'' label_lower then
        prefixed_int ''POL-'' (randint env 10000000 99999999 r)
      else if contains ''member id'' label_lower \<or> contains ''subscriber id'' label_lower then
        prefixed_int ''MEM-'' (randint env 1000000 9999999 r)
      else if contains ''provider id'' label_lower then
        prefixed_int ''PROV-'' (random_int env 1000 9999 r)
      else if contains ''npi number'' label_lower then
        prefixed_int [] (random_int env 1000000000 9999999999 r)
      else if contains ''medical license'' label_lower \<or> contains ''license number'' label_lower then
        (case choice env medical_state_codes r of (state_code, r1) \<Rightarrow>
           prefixed_int (state_code @ ''MED'') (random_int env 10000 99999 r1))
      else if contains ''dea number'' label_lower then
        (case random_letters env 2 r of (letters, r1) \<Rightarrow>
           prefixed_int (upper letters) (random_int env 1000000 9999999 r1))
      else if contains ''date of birth'' label_lower \<or> contains ''dob'' label_lower
              \<or> contains ''birth'' label_lower then
        (case date_of_birth env 18 75 r of (fake_date, r') \<Rightarrow> (strftime_dBY fake_date, r'))
      else if contains ''credit card'' label_lower then
        prefixed_int ''****-****-****-'' (random_int env 1000 9999 r)
      else if contains ''ssn'' label_lower \<or> contains ''social security'' label_lower
              \<or> contains ''aadhaar'' label_lower then
        generate_aadhaar env r
      else if contains ''passport'' label_lower then
        (case random_letter env r of (c, r1) \<Rightarrow>
           prefixed_int (upper [c]) (random_int env 1000000 9999999 r1))
      else if contains ''driver license'' label_lower \<or> contains ''driving licence'' label_lower then
        (case choice env driver_state_codes r of (state, r1) \<Rightarrow>
           prefixed_int state (random_int env 10000000000 99999999999 r1))
      else if any_in insurance_words (lower original_value) then
        choice env insurance_names r
      else (generic_placeholder label, r))"

text \<open>The dispatch on a cache miss, lines 37 to 158.\<close>

definition fresh_value ::
  "'r faker_env \<Rightarrow> string \<Rightarrow> string \<Rightarrow> 'r faker_state \<Rightarrow> py_error + (string \<times> 'r faker_state)" where
  "fresh_value env label original_value s =
     (let label_lower = lower label in
      if contains ''patient name'' label_lower \<or> contains ''name'' label_lower then
        Inr (gen_name env label original_value s)
      else if contains ''doctor'' label_lower \<or> contains ''primary doctor'' label_lower
              \<or> contains ''physician'' label_lower then
        (case gen_doctor env (rng s) of (fv, r') \<Rightarrow> Inr (fv, s\<lparr>rng := r'\<rparr>))
      else if contains ''email'' label_lower then gen_email env s
      else (case gen_plain env label original_value (rng s) of (fv, r') \<Rightarrow> Inr (fv, s\<lparr>rng := r'\<rparr>)))"

definition cache_key :: "string \<Rightarrow> string \<Rightarrow> string" where
  "cache_key label original_value = label @ '':'' @ original_value"

text \<open>\<^verbatim>\<open>generate_fake_value\<close>: the cache is consulted first and filled on a miss.\<close>

definition generate_fake_value ::
  "'r faker_env \<Rightarrow> string \<Rightarrow> string \<Rightarrow> 'r faker_state \<Rightarrow> py_error + (string \<times> 'r faker_state)" where
  "generate_fake_value env label original_value s =
     (case replacement_cache s (cache_key label original_value) of
        Some cached \<Rightarrow> Inr (cached, s)
      | None \<Rightarrow>
          (case fresh_value env label original_value s of
             Inl e \<Rightarrow> Inl e
           | Inr (fake_value, s1) \<Rightarrow>
               Inr (fake_value,
                    s1\<lparr>replacement_cache :=
                         (replacement_cache s1)(cache_key label original_value \<mapsto> fake_value)\<rparr>)))"

text \<open>A detected value is one string or a sequence of strings.\<close>

datatype pii_value = Scalar string | Seq "string list"

text \<open>\<^verbatim>\<open>[self.generate_fake_value(label, v) for v in value]\<close>.\<close>

fun generate_fake_list ::
  "'r faker_env \<Rightarrow> string \<Rightarrow> string list \<Rightarrow> 'r faker_state \<Rightarrow> py_error + (string list \<times> 'r faker_state)" where
  "generate_fake_list env label [] s = Inr ([], s)"
| "generate_fake_list env label (v # vs) s =
     (case generate_fake_value env label v s of
        Inl e \<Rightarrow> Inl e
      | Inr (f, s1) \<Rightarrow>
          (case generate_fake_list env label vs s1 of
             Inl e \<Rightarrow> Inl e
           | Inr (fs, s2) \<Rightarrow> Inr (f # fs, s2)))"

text \<open>The \<^verbatim>\<open>isinstance(value, list)\<close> split both loops of \<^verbatim>\<open>replace_pii_json\<close> make.\<close>

definition replace_value ::
  "'r faker_env \<Rightarrow> string \<Rightarrow> pii_value \<Rightarrow> 'r faker_state \<Rightarrow> py_error + (pii_value \<times> 'r faker_state)" where
  "replace_value env label value s =
     (case value of
        Seq vs \<Rightarrow>
          (case generate_fake_list env label vs s of
             Inl e \<Rightarrow> Inl e | Inr (fs, s1) \<Rightarrow> Inr (Seq fs, s1))
      | Scalar v \<Rightarrow>
          (case generate_fake_value env label v s of
             Inl e \<Rightarrow> Inl e | Inr (f, s1) \<Rightarrow> Inr (Scalar f, s1)))"

text \<open>
  A Python dict is an association list in insertion order; assigning to a key that is
  present keeps its place, assigning to a new key appends it (\<open>AList.update\<close>).
\<close>

type_synonym pii_json = "(string \<times> pii_value) list"

definition has_key :: "pii_json \<Rightarrow> string \<Rightarrow> bool" where
  "has_key d k = (map_of d k \<noteq> None)"

text \<open>Lines 182 to 185: the anchor is taken from the entry just written.\<close>

definition set_anchor_from :: "pii_value \<Rightarrow> 'r faker_state \<Rightarrow> 'r faker_state" where
  "set_anchor_from fv s =
     (case fv of
        Scalar x \<Rightarrow> s\<lparr>current_patient_name := Some x\<rparr>
      | Seq xs \<Rightarrow> (case xs of [] \<Rightarrow> s | x # _ \<Rightarrow> s\<lparr>current_patient_name := Some x\<rparr>))"

text \<open>The first loop, lines 173 to 186: it stops at the first patient-name label.\<close>

fun first_pass ::
  "'r faker_env \<Rightarrow> pii_json \<Rightarrow> pii_json \<Rightarrow> 'r faker_state \<Rightarrow> py_error + (pii_json \<times> 'r faker_state)" where
  "first_pass env [] fake_json s = Inr (fake_json, s)"
| "first_pass env ((label, value) # rest) fake_json s =
     (if is_patient_label label then
        (case replace_value env label value s of
           Inl e \<Rightarrow> Inl e
         | Inr (fv, s1) \<Rightarrow> Inr (AList.update label fv fake_json, set_anchor_from fv s1))
      else first_pass env rest fake_json s)"

text \<open>The second loop, lines 189 to 199.\<close>

fun second_pass ::
  "'r faker_env \<Rightarrow> pii_json \<Rightarrow> pii_json \<Rightarrow> 'r faker_state \<Rightarrow> py_error + (pii_json \<times> 'r faker_state)" where
  "second_pass env [] fake_json s = Inr (fake_json, s)"
| "second_pass env ((label, value) # rest) fake_json s =
     (if is_patient_label label \<and> has_key fake_json label then second_pass env rest fake_json s
      else
        (case replace_value env label value s of
           Inl e \<Rightarrow> Inl e
         | Inr (fv, s1) \<Rightarrow> second_pass env rest (AList.update label fv fake_json) s1))"

definition replace_pii_json ::
  "'r faker_env \<Rightarrow> pii_json \<Rightarrow> 'r faker_state \<Rightarrow> py_error + (pii_json \<times> 'r faker_state)" where
  "replace_pii_json env pii s =
     (case first_pass env pii [] (s\<lparr>current_patient_name := None\<rparr>) of
        Inl e \<Rightarrow> Inl e
      | Inr (fake_json, s1) \<Rightarrow> second_pass env pii fake_json s1)"

section \<open>The detection adapter (\<^verbatim>\<open>pii_detector.py\<close>)\<close>

text \<open>An entity of the oracle: the two keys the adapter reads.\<close>

record entity =
  e_label :: string
  e_text :: string

text \<open>
  \<^verbatim>\<open>predict_entities(text, labels, threshold)\<close>: the oracle returns its flat entity list or
  raises (\<open>Inl\<close> the message).  \<^verbatim>\<open>self.model\<close> is \<open>None\<close> when the oracle failed to load.
\<close>

type_synonym 't detector_model = "string \<Rightarrow> string list \<Rightarrow> 't \<Rightarrow> string + entity list"

definition pii_labels :: "string list" where
  "pii_labels =
     [''Patient Name'', ''Address'', ''email'', ''Emergency Name'',
      ''Primary Doctor'', ''Doctor'', ''Physician'',
      ''phone number'', ''mobile number'', ''date of birth'', ''credit card'',
      ''social security number'', ''ssn'', ''passport number'',
      ''driver license'', ''ip address'', ''password'',
      ''Hospital ID'', ''Medical Record Number'', ''Patient ID'',
      ''Insurance ID'', ''Policy Number'', ''Member ID'', ''Subscriber ID'',
      ''Provider ID'', ''NPI Number'', ''Medical License'', ''DEA Number'',
      ''nurse'', ''medical facility'', ''medical insurance'', ''health insurance'']"

text \<open>The body of the loop over the entities, lines 68 to 77.\<close>

definition collapse_step :: "pii_json \<Rightarrow> entity \<Rightarrow> pii_json" where
  "collapse_step simple_pii ent =
     (let label = e_label ent; text_value = e_text ent
      in case map_of simple_pii label of
           Some (Seq xs) \<Rightarrow> AList.update label (Seq (xs @ [text_value])) simple_pii
         | Some (Scalar x) \<Rightarrow> AList.update label (Seq [x, text_value]) simple_pii
         | None \<Rightarrow> AList.update label (Scalar text_value) simple_pii)"

definition collapse_entities :: "entity list \<Rightarrow> pii_json" where
  "collapse_entities entities = foldl collapse_step [] entities"

definition demo_pii :: pii_json where
  "demo_pii =
     [(''Patient Name'', Scalar ''John Doe''),
      (''phone number'', Scalar ''+91-9876543210''),
      (''email'', Scalar ''john.doe@example.com'')]"

definition extract_pii_from_text :: "'t detector_model option \<Rightarrow> string \<Rightarrow> 't \<Rightarrow> pii_json" where
  "extract_pii_from_text model text confidence_threshold =
     (case model of
        None \<Rightarrow> demo_pii
      | Some predict_entities \<Rightarrow>
          (case predict_entities text pii_labels confidence_threshold of
             Inl msg \<Rightarrow> [(''error'', Scalar (''PII Detection failed: '' @ msg))]
           | Inr entities \<Rightarrow> collapse_entities entities))"

section \<open>The text extractor (\<^verbatim>\<open>extractor.py\<close>)\<close>

text \<open>
  The file system and the document libraries are external.  A \<open>world\<close> says, for each
  path, what each library call does there: it raises (\<open>Inl\<close> the message) or returns what
  the extractor reads from the result.
\<close>

type_synonym image = string

record docx_section =
  header_paragraphs :: "string list option"
  footer_paragraphs :: "string list option"

record docx_document =
  paragraphs :: "string list"
  tables :: "string list list list"
  sections :: "docx_section list"

text \<open>A data frame: the column names as strings, and the cells, \<open>None\<close> for a missing value.\<close>

record sheet =
  columns :: "string list"
  rows :: "string option list list"

record world =
  path_exists :: "string \<Rightarrow> bool"
  image_open :: "string \<Rightarrow> string + image"
  image_to_string :: "image \<Rightarrow> string \<Rightarrow> string + string"
  fitz_pages :: "string \<Rightarrow> string + (string + string) list"
  pdf_rasters :: "string \<Rightarrow> string + image list"
  docx_open :: "string \<Rightarrow> string + docx_document"
  read_csv :: "string \<Rightarrow> string + sheet"
  read_excel :: "string \<Rightarrow> string + (string \<times> sheet) list"
  temp_dir :: string
  zip_walk :: "string \<Rightarrow> string + (string \<times> string list) list"

text \<open>What the extractor asks of the outside, in order.\<close>

datatype event = OcrCall image string | RasterizeCall string nat nat | MemberCall string

definition supported_images :: "string list" where
  "supported_images = [''.png'', ''.jpg'', ''.jpeg'', ''.bmp'', ''.tiff'', ''.gif'']"

definition supported_pdfs :: "string list" where
  "supported_pdfs = [''.pdf'']"

definition supported_word :: "string list" where
  "supported_word = [''.docx'', ''.doc'']"

definition supported_excel :: "string list" where
  "supported_excel = [''.xlsx'', ''.xls'', ''.csv'']"

definition supported_archives :: "string list" where
  "supported_archives = [''.zip'']"

definition all_supported :: "string list" where
  "all_supported =
     supported_images @ supported_pdfs @ supported_word @ supported_excel @ supported_archives"

text \<open>
  The loop over the OCR configurations (lines 75 to 81 and 130 to 136): a fault of one
  attempt is swallowed, and the longest trimmed text wins.
\<close>

fun ocr_best :: "world \<Rightarrow> image \<Rightarrow> string list \<Rightarrow> string \<Rightarrow> string \<times> event list" where
  "ocr_best w img [] best_text = (best_text, [])"
| "ocr_best w img (config # rest) best_text =
     (let best' = (case image_to_string w img config of
                     Inl _ \<Rightarrow> best_text
                   | Inr text \<Rightarrow>
                       if length (strip text) > length (strip best_text) then text else best_text)
      in case ocr_best w img rest best' of (b, evs) \<Rightarrow> (b, OcrCall img config # evs))"

text \<open>\<^verbatim>\<open>'\n'.join(line.strip() for line in text.split('\n') if line.strip())\<close>.\<close>

definition clean_lines :: "string \<Rightarrow> string" where
  "clean_lines text =
     join [CHR 0x0A] (filter (\<lambda>l. l \<noteq> []) (map strip (split_on (CHR 0x0A) text)))"

definition image_configs :: "string list" where
  "image_configs = [''--oem 3 --psm 6'', ''--oem 3 --psm 3'', ''--oem 3 --psm 1'']"

definition pdf_configs :: "string list" where
  "pdf_configs = [''--oem 3 --psm 6'', ''--oem 3 --psm 3'']"

definition extract_from_image :: "world \<Rightarrow> string \<Rightarrow> string \<times> event list" where
  "extract_from_image w image_path =
     (case image_open w image_path of
        Inl msg \<Rightarrow> (''OCR Error: '' @ msg, [])
      | Inr img \<Rightarrow>
          (case ocr_best w img image_configs [] of
             (best_text, evs) \<Rightarrow>
               (let cleaned_text = clean_lines best_text
                in (if cleaned_text \<noteq> [] then cleaned_text else ''No text found in image'', evs))))"

text \<open>The loop over the pages of the text layer, lines 103 to 108.\<close>

fun direct_text_loop ::
  "(string + string) list \<Rightarrow> bool \<Rightarrow> string list \<Rightarrow> string + (bool \<times> string list)" where
  "direct_text_loop [] text_found full_text = Inr (text_found, full_text)"
| "direct_text_loop (page # rest) text_found full_text =
     (case page of
        Inl msg \<Rightarrow> Inl msg
      | Inr raw \<Rightarrow>
          (let text = strip raw
           in if text \<noteq> [] then direct_text_loop rest True (full_text @ [text])
              else direct_text_loop rest text_found full_text))"

text \<open>\<^verbatim>\<open>convert_from_path(path, first_page=a, last_page=b)\<close>: the rasters of pages a to b.\<close>

definition convert_from_path :: "world \<Rightarrow> string \<Rightarrow> nat \<Rightarrow> nat \<Rightarrow> string + image list" where
  "convert_from_path w pdf_path first_page last_page =
     (case pdf_rasters w pdf_path of
        Inl msg \<Rightarrow> Inl msg
      | Inr imgs \<Rightarrow> Inr (take (Suc last_page - first_page) (drop (first_page - 1) imgs)))"

text \<open>The loop over the rasterized pages, lines 123 to 140.\<close>

fun ocr_pages_loop :: "world \<Rightarrow> image list \<Rightarrow> string list \<Rightarrow> string list \<times> event list" where
  "ocr_pages_loop w [] ocr_texts = (ocr_texts, [])"
| "ocr_pages_loop w (page # rest) ocr_texts =
     (case ocr_best w page pdf_configs [] of
        (best_page_text, evs) \<Rightarrow>
          (let cleaned_text = clean_lines best_page_text;
               ocr_texts' = (if cleaned_text \<noteq> [] then ocr_texts @ [cleaned_text] else ocr_texts)
           in case ocr_pages_loop w rest ocr_texts' of (ts, evs') \<Rightarrow> (ts, evs @ evs')))"

definition extract_from_pdf :: "world \<Rightarrow> string \<Rightarrow> string \<times> event list" where
  "extract_from_pdf w pdf_path =
     (case fitz_pages w pdf_path of
        Inl msg \<Rightarrow> (''Error processing PDF: '' @ msg, [])
      | Inr doc \<Rightarrow>
          (case direct_text_loop doc False [] of
             Inl msg \<Rightarrow> (''Error processing PDF: '' @ msg, [])
           | Inr (text_found, full_text) \<Rightarrow>
               if text_found then (join [CHR 0x0A, CHR 0x0A] full_text, [])
               else
                 (case convert_from_path w pdf_path 1 5 of
                    Inl msg \<Rightarrow> (''PDF OCR failed: '' @ msg, [RasterizeCall pdf_path 1 5])
                  | Inr pages \<Rightarrow>
                      (case ocr_pages_loop w pages [] of
                         (ocr_texts, evs) \<Rightarrow>
                           (if ocr_texts \<noteq> [] then join [CHR 0x0A, CHR 0x0A] ocr_texts
                            else ''No text could be extracted from this PDF'',
                            RasterizeCall pdf_path 1 5 # evs)))))"

definition table_row_text :: "string list \<Rightarrow> string list" where
  "table_row_text row =
     (let row_data = filter (\<lambda>c. c \<noteq> []) (map strip row)
      in if row_data \<noteq> [] then [join '' | '' row_data] else [])"

definition section_texts :: "docx_section \<Rightarrow> string list" where
  "section_texts sec =
     (case header_paragraphs sec of
        None \<Rightarrow> []
      | Some ps \<Rightarrow> map (\<lambda>t. ''[HEADER] '' @ t) (filter (\<lambda>t. strip t \<noteq> []) ps))
     @ (case footer_paragraphs sec of
          None \<Rightarrow> []
        | Some ps \<Rightarrow> map (\<lambda>t. ''[FOOTER] '' @ t) (filter (\<lambda>t. strip t \<noteq> []) ps))"

definition extract_from_word :: "world \<Rightarrow> string \<Rightarrow> string \<times> event list" where
  "extract_from_word w word_path =
     (case docx_open w word_path of
        Inl msg \<Rightarrow> (''Error processing Word document: '' @ msg, [])
      | Inr document \<Rightarrow>
          (let paras = filter (\<lambda>t. strip t \<noteq> []) (paragraphs document);
               table_data = concat (map (\<lambda>table. concat (map table_row_text table)) (tables document));
               header_footer_text = concat (map section_texts (sections document));
               full_text = join [CHR 0x0A] (paras @ table_data @ header_footer_text)
           in (if full_text \<noteq> [] then full_text else ''No text found in Word document'', [])))"

definition sheet_lines :: "string \<times> sheet \<Rightarrow> string list" where
  "sheet_lines named =
     (case named of
        (sheet_name, df) \<Rightarrow>
          [''=== SHEET: '' @ sheet_name @ '' ==='',
           ''[HEADERS] '' @ join '' | '' (filter (\<lambda>c. c \<noteq> ''nan'') (columns df))]
          @ concat (map (\<lambda>row.
                (let row_values = filter (\<lambda>c. strip c \<noteq> []) (concat (map (\<lambda>cell. case cell of None \<Rightarrow> [] | Some c \<Rightarrow> [c]) row))
                 in if row_values \<noteq> [] then [join '' | '' row_values] else [])) (rows df))
          @ [[]])"

definition extract_from_excel :: "world \<Rightarrow> string \<Rightarrow> string \<times> event list" where
  "extract_from_excel w excel_path =
     (case (if endswith (lower excel_path) ''.csv''
            then (case read_csv w excel_path of Inl msg \<Rightarrow> Inl msg | Inr df \<Rightarrow> Inr [(''Sheet1'', df)])
            else read_excel w excel_path) of
        Inl msg \<Rightarrow> (''Error processing Excel file: '' @ msg, [])
      | Inr excel_data \<Rightarrow>
          (let full_text = join [CHR 0x0A] (concat (map sheet_lines excel_data))
           in (if full_text \<noteq> [] then full_text else ''No text found in Excel file'', [])))"

text \<open>
  \<^verbatim>\<open>extract_text\<close>, lines 29 to 59, with the archive strategy as a parameter.  Every strategy
  catches its own faults, so the handler of lines 56 to 59 has nothing left to catch.
\<close>

definition extract_text_with ::
  "(string \<Rightarrow> string \<times> event list) \<Rightarrow> world \<Rightarrow> string \<Rightarrow> string \<times> event list" where
  "extract_text_with from_zip w file_path =
     (if \<not> path_exists w file_path
      then (''Error: File '' @ [CHR 0x27] @ file_path @ [CHR 0x27] @ '' not found'', [])
      else
        (let file_ext = splitext_ext (lower file_path)
         in if file_ext \<in> set supported_images then extract_from_image w file_path
            else if file_ext \<in> set supported_pdfs then extract_from_pdf w file_path
            else if file_ext \<in> set supported_word then extract_from_word w file_path
            else if file_ext \<in> set supported_excel then extract_from_excel w file_path
            else if file_ext \<in> set supported_archives then from_zip file_path
            else (''Error: Unsupported file format '' @ [CHR 0x27] @ file_ext @ [CHR 0x27], [])))"

text \<open>
  The files \<^verbatim>\<open>os.walk(temp_dir)\<close> yields after the archive is unpacked: the world gives each
  directory below \<^verbatim>\<open>temp_dir\<close> (the empty string for \<^verbatim>\<open>temp_dir\<close> itself) with its file names.
\<close>

definition walk_root :: "string \<Rightarrow> string \<Rightarrow> string" where
  "walk_root tmp subdir = (if subdir = [] then tmp else tmp @ ''/'' @ subdir)"

text \<open>Lines 257 to 269: the supported files that are no archives, as paths, in walk order.\<close>

definition extracted_files :: "string \<Rightarrow> (string \<times> string list) list \<Rightarrow> string list" where
  "extracted_files tmp walk =
     concat (map (\<lambda>entry. case entry of
        (subdir, files) \<Rightarrow>
          map (\<lambda>file. walk_root tmp subdir @ ''/'' @ file)
            (filter (\<lambda>file. splitext_ext (lower file) \<in> set all_supported
                            \<and> splitext_ext (lower file) \<noteq> ''.zip'') files)) walk)"

text \<open>\<^verbatim>\<open>os.path.relpath(file_path, temp_dir)\<close> for a path below \<^verbatim>\<open>temp_dir\<close>.\<close>

definition relpath_under :: "string \<Rightarrow> string \<Rightarrow> string" where
  "relpath_under tmp file_path = drop (Suc (length tmp)) file_path"

text \<open>
  The loop over the kept members, lines 277 to 295.  \<open>extract\<close> is the recursive call of
  \<^verbatim>\<open>extract_text\<close>; the counter that is only printed is left out.
\<close>

fun zip_member_loop ::
  "(string \<Rightarrow> string \<times> event list) \<Rightarrow> string \<Rightarrow> string list \<Rightarrow> string list \<Rightarrow> string list \<times> event list" where
  "zip_member_loop extract tmp [] all_extracted_text = (all_extracted_text, [])"
| "zip_member_loop extract tmp (file_path # rest) all_extracted_text =
     (let relative_path = relpath_under tmp file_path;
          file_ext = splitext_ext (lower file_path)
      in if file_ext \<noteq> ''.zip'' then
           (case extract file_path of
              (text, evs) \<Rightarrow>
                (let all' = (if \<not> startswith text ''Error:'' \<and> strip text \<noteq> []
                             then all_extracted_text @ [''=== FILE: '' @ relative_path @ '' ==='', text, []]
                             else all_extracted_text)
                 in case zip_member_loop extract tmp rest all' of
                      (ts, evs') \<Rightarrow> (ts, MemberCall file_path # evs @ evs')))
         else zip_member_loop extract tmp rest all_extracted_text)"

text \<open>
  The recursive call is made only on a path whose extension is not \<^verbatim>\<open>.zip\<close>, and
  \<^verbatim>\<open>extract_text\<close> computes the same extension again, so the call never reaches the archive
  strategy; the parameter it gets there is never applied (lemma \<open>member_call_not_archive\<close>).
\<close>

definition nested_archive :: "string \<Rightarrow> string \<times> event list" where
  "nested_archive file_path = ([], [])"

definition extract_from_zip :: "world \<Rightarrow> string \<Rightarrow> string \<times> event list" where
  "extract_from_zip w zip_path =
     (case zip_walk w zip_path of
        Inl msg \<Rightarrow> (''Error processing ZIP file: '' @ msg, [])
      | Inr walk \<Rightarrow>
          (case zip_member_loop (extract_text_with nested_archive w) (temp_dir w)
                  (take 10 (extracted_files (temp_dir w) walk)) [] of
             (all_extracted_text, evs) \<Rightarrow>
               (if all_extracted_text \<noteq> [] then join [CHR 0x0A] all_extracted_text
                else ''No text could be extracted from files in ZIP archive'', evs)))"

definition extract_text :: "world \<Rightarrow> string \<Rightarrow> string \<times> event list" where
  "extract_text w file_path = extract_text_with (extract_from_zip w) w file_path"

text \<open>\<^verbatim>\<open>extract_pii_from_file\<close>, lines 115 to 125.\<close>

definition extract_pii_from_file ::
  "world \<Rightarrow> 't detector_model option \<Rightarrow> string \<Rightarrow> 't \<Rightarrow> pii_json" where
  "extract_pii_from_file w model file_path confidence_threshold =
     (let text = fst (extract_text w file_path)
      in if startswith text ''Error:'' then [(''error'', Scalar text)]
         else extract_pii_from_text model text confidence_threshold)"

text \<open>The events of a log that are OCR runs, and the members an archive run extracted.\<close>

definition ocr_images :: "event list \<Rightarrow> image list" where
  "ocr_images evs = concat (map (\<lambda>e. case e of OcrCall img _ \<Rightarrow> [img] | _ \<Rightarrow> []) evs)"

definition member_calls :: "event list \<Rightarrow> string list" where
  "member_calls evs = concat (map (\<lambda>e. case e of MemberCall p \<Rightarrow> [p] | _ \<Rightarrow> []) evs)"

section \<open>Runs of one generator instance, and concrete generators\<close>

text \<open>
  The cache lives as long as the \<^verbatim>\<open>SimplePIIFaker\<close> instance; nothing removes an entry.
  A cache lifetime is therefore any sequence of the two public calls on one instance.
\<close>

datatype faker_call = Generate string string | ReplaceAll pii_json

fun run_call :: "'r faker_env \<Rightarrow> faker_call \<Rightarrow> 'r faker_state \<Rightarrow> py_error + 'r faker_state" where
  "run_call env (Generate label v) s =
     (case generate_fake_value env label v s of Inl e \<Rightarrow> Inl e | Inr (_, s1) \<Rightarrow> Inr s1)"
| "run_call env (ReplaceAll pii) s =
     (case replace_pii_json env pii s of Inl e \<Rightarrow> Inl e | Inr (_, s1) \<Rightarrow> Inr s1)"

fun run_calls :: "'r faker_env \<Rightarrow> faker_call list \<Rightarrow> 'r faker_state \<Rightarrow> py_error + 'r faker_state" where
  "run_calls env [] s = Inr s"
| "run_calls env (c # cs) s =
     (case run_call env c s of Inl e \<Rightarrow> Inl e | Inr s1 \<Rightarrow> run_calls env cs s1)"

text \<open>A deterministic stand-in for the generators, to evaluate the definitions on.\<close>

definition sample_env :: "nat faker_env" where
  "sample_env =
     \<lparr>name_male = (\<lambda>r. (if even r then ''Ravi Kumar'' else ''Arjun Singh'', Suc r)),
      name_female = (\<lambda>r. (if even r then ''Sita Devi'' else ''Priya Nair'', Suc r)),
      name_any = (\<lambda>r. (if even r then ''Kiran Rao'' else ''Asha Mehta'', Suc r)),
      email_any = (\<lambda>r. (''user'' @ str_nat r @ ''@example.net'', Suc r)),
      address_any = (\<lambda>r. (''12 MG Road'' @ [CHR 0x0A] @ ''Pune'', Suc r)),
      date_of_birth = (\<lambda>lo hi r. ((1 + r mod 28, 1 + r mod 12, 1990), Suc r)),
      random_int = (\<lambda>lo hi r. (lo + int r mod (hi - lo + 1), Suc r)),
      random_letters = (\<lambda>n r. (replicate n (CHR ''q''), Suc r)),
      random_letter = (\<lambda>r. (CHR ''k'', Suc r)),
      randint = (\<lambda>lo hi r. (lo + int r mod (hi - lo + 1), Suc r)),
      choice_index = (\<lambda>n r. (r, Suc r))\<rparr>"

section \<open>What the normalization is expected to produce\<close>

text \<open>
  The texts of the entities of one label, in order; the labels in order of first appearance;
  and the shape of an entry: one text is a scalar, several are a sequence.
\<close>

definition texts_for :: "string \<Rightarrow> entity list \<Rightarrow> string list" where
  "texts_for label entities = map e_text (filter (\<lambda>e. e_label e = label) entities)"

fun first_seen :: "string list \<Rightarrow> string list \<Rightarrow> string list" where
  "first_seen seen [] = []"
| "first_seen seen (x # xs) =
     (if x \<in> set seen then first_seen seen xs else x # first_seen (x # seen) xs)"

definition first_labels :: "entity list \<Rightarrow> string list" where
  "first_labels entities = first_seen [] (map e_label entities)"

definition as_value :: "string list \<Rightarrow> pii_value option" where
  "as_value xs = (case xs of [] \<Rightarrow> None | [x] \<Rightarrow> Some (Scalar x) | _ \<Rightarrow> Some (Seq xs))"

definition values_in :: "pii_json \<Rightarrow> string \<Rightarrow> string list" where
  "values_in d label =
     (case map_of d label of None \<Rightarrow> [] | Some (Scalar x) \<Rightarrow> [x] | Some (Seq xs) \<Rightarrow> xs)"

section \<open>The batch pass, as the specification words it\<close>

text \<open>
  A replacement keeps the shape of the value: a scalar for a scalar, a sequence of the same
  length for a sequence.
\<close>

fun same_shape :: "pii_value \<Rightarrow> pii_value \<Rightarrow> bool" where
  "same_shape (Scalar x) (Scalar y) = True"
| "same_shape (Seq xs) (Seq ys) = (length xs = length ys)"
| "same_shape (Scalar x) (Seq ys) = False"
| "same_shape (Seq xs) (Scalar y) = False"

text \<open>
  The labels replaced one after the other in the order given, and the batch as described: the
  anchor is reset, the first patient-name label of the mapping (if there is one) is replaced
  and becomes the anchor, then every other entry is replaced in the mapping's order.
\<close>

fun replace_in_order ::
  "'r faker_env \<Rightarrow> pii_json \<Rightarrow> pii_json \<Rightarrow> 'r faker_state \<Rightarrow> py_error + (pii_json \<times> 'r faker_state)" where
  "replace_in_order env [] fake_json s = Inr (fake_json, s)"
| "replace_in_order env ((label, v) # rest) fake_json s =
     (case replace_value env label v s of
        Inl e \<Rightarrow> Inl e
      | Inr (fv, s1) \<Rightarrow> replace_in_order env rest (AList.update label fv fake_json) s1)"

definition first_patient_then_rest ::
  "'r faker_env \<Rightarrow> pii_json \<Rightarrow> 'r faker_state \<Rightarrow> py_error + (pii_json \<times> 'r faker_state)" where
  "first_patient_then_rest env pii s =
     (let s0 = s\<lparr>current_patient_name := None\<rparr>
      in case find (\<lambda>e. is_patient_label (fst e)) pii of
           None \<Rightarrow> replace_in_order env pii [] s0
         | Some (label0, v0) \<Rightarrow>
             (case replace_value env label0 v0 s0 of
                Inl e \<Rightarrow> Inl e
              | Inr (fv, s1) \<Rightarrow>
                  replace_in_order env (filter (\<lambda>e. fst e \<noteq> label0) pii) [(label0, fv)]
                    (set_anchor_from fv s1)))"

section \<open>Names for the conditions and expectations of the generator claims\<close>

text \<open>The label gets past the name and doctor tests of the dispatch and matches the email test.\<close>

definition reaches_email_branch :: "string \<Rightarrow> bool" where
  "reaches_email_branch label =
     (let label_lower = lower label
      in \<not> (contains ''patient name'' label_lower \<or> contains ''name'' label_lower)
         \<and> \<not> (contains ''doctor'' label_lower \<or> contains ''primary doctor'' label_lower
               \<or> contains ''physician'' label_lower)
         \<and> contains ''email'' label_lower)"

text \<open>
  The local part as worded in the specification: the first and last whitespace-separated tokens
  of the anchor itself, each cleaned, joined by a period.
\<close>

definition claimed_local_part :: "string \<Rightarrow> string" where
  "claimed_local_part anchor =
     clean_for_email (hd (split_ws anchor)) @ ''.'' @ clean_for_email (last (split_ws anchor))"

text \<open>Every keyword a label is tested for, lines 41 to 135.\<close>

definition dispatch_keywords :: "string list" where
  "dispatch_keywords =
     [''patient name'', ''name'', ''doctor'', ''primary doctor'', ''physician'', ''email'',
      ''phone number'', ''mobile number'', ''address'', ''location'', ''hospital id'',
      ''patient id'', ''medical record number'', ''mrn'', ''insurance id'', ''policy number'',
      ''member id'', ''subscriber id'', ''provider id'', ''npi number'', ''medical license'',
      ''license number'', ''dea number'', ''date of birth'', ''dob'', ''birth'', ''credit card'',
      ''ssn'', ''social security'', ''aadhaar'', ''passport'', ''driver license'',
      ''driving licence'']"

section \<open>Names for the conditions of the extractor claims\<close>

text \<open>A page of the text layer that reads without fault and is not blank.\<close>

definition has_text :: "string + string \<Rightarrow> bool" where
  "has_text page = (case page of Inl _ \<Rightarrow> False | Inr raw \<Rightarrow> strip raw \<noteq> [])"

text \<open>The file names of a directory walk are names, not paths.\<close>

definition walk_names_ok :: "(string \<times> string list) list \<Rightarrow> bool" where
  "walk_names_ok walk = list_all (\<lambda>entry. list_all (\<lambda>file. CHR ''/'' \<notin> set file) (snd entry)) walk"

section \<open>The replacement cache\<close>

lemma gen_name_cache:
  "gen_name env label v s = (fv, s1) \<Longrightarrow> replacement_cache s1 = replacement_cache s"
  by (auto simp: gen_name_def Let_def split: if_splits prod.splits)

lemma gen_email_cache:
  "gen_email env s = Inr (fv, s1) \<Longrightarrow> replacement_cache s1 = replacement_cache s"
  by (auto simp: gen_email_def Let_def split: if_splits prod.splits option.splits list.splits)

lemma fresh_value_cache:
  "fresh_value env label v s = Inr (fv, s1) \<Longrightarrow> replacement_cache s1 = replacement_cache s"
  unfolding fresh_value_def Let_def
  by (auto split: if_splits prod.splits dest: gen_name_cache gen_email_cache)

lemma generate_hit:
  "replacement_cache s (cache_key label v) = Some x \<Longrightarrow> generate_fake_value env label v s = Inr (x, s)"
  by (simp add: generate_fake_value_def)

lemma generate_stores:
  "generate_fake_value env label v s = Inr (fv, s1) \<Longrightarrow> replacement_cache s1 (cache_key label v) = Some fv"
  by (auto simp: generate_fake_value_def split: option.splits sum.splits)

lemma generate_keeps:
  assumes "generate_fake_value env label v s = Inr (fv, s1)" and "replacement_cache s k = Some x"
  shows "replacement_cache s1 k = Some x"
proof (cases "replacement_cache s (cache_key label v)")
  case None
  with assms obtain s' where f: "fresh_value env label v s = Inr (fv, s')"
    and s1: "s1 = s'\<lparr>replacement_cache := (replacement_cache s')(cache_key label v \<mapsto> fv)\<rparr>"
    by (auto simp: generate_fake_value_def split: sum.splits)
  from fresh_value_cache[OF f] have "replacement_cache s' = replacement_cache s" .
  with None assms(2) s1 show ?thesis by auto
next
  case (Some c)
  with assms show ?thesis by (simp add: generate_fake_value_def)
qed

lemma generate_list_keeps:
  "generate_fake_list env label vs s = Inr (fs, s1) \<Longrightarrow> replacement_cache s k = Some x
     \<Longrightarrow> replacement_cache s1 k = Some x"
proof (induction vs arbitrary: s fs)
  case Nil
  then show ?case by simp
next
  case (Cons v vs)
  then show ?case
    by (auto split: sum.splits prod.splits dest: generate_keeps)
qed

lemma replace_value_keeps:
  "replace_value env label value s = Inr (fv, s1) \<Longrightarrow> replacement_cache s k = Some x
     \<Longrightarrow> replacement_cache s1 k = Some x"
  by (auto simp: replace_value_def split: pii_value.splits sum.splits prod.splits
      dest: generate_keeps generate_list_keeps)

lemma set_anchor_from_cache [simp]:
  "replacement_cache (set_anchor_from fv s) = replacement_cache s"
  by (simp add: set_anchor_from_def split: pii_value.splits list.splits)

lemma first_pass_keeps:
  "first_pass env pii fj s = Inr (fj', s1) \<Longrightarrow> replacement_cache s k = Some x
     \<Longrightarrow> replacement_cache s1 k = Some x"
proof (induction pii arbitrary: fj s)
  case Nil
  then show ?case by simp
next
  case (Cons e pii)
  obtain label val where e: "e = (label, val)" by (cases e)
  show ?case
  proof (cases "is_patient_label label")
    case True
    with Cons.prems e show ?thesis
      by (auto split: sum.splits prod.splits dest: replace_value_keeps)
  next
    case False
    with Cons e show ?thesis by simp
  qed
qed

lemma second_pass_keeps:
  "second_pass env pii fj s = Inr (fj', s1) \<Longrightarrow> replacement_cache s k = Some x
     \<Longrightarrow> replacement_cache s1 k = Some x"
proof (induction pii arbitrary: fj s)
  case Nil
  then show ?case by simp
next
  case (Cons e pii)
  obtain label val where e: "e = (label, val)" by (cases e)
  show ?case
  proof (cases "is_patient_label label \<and> has_key fj label")
    case True
    with Cons e show ?thesis by simp
  next
    case False
    with Cons.prems e obtain fv s' where
      r: "replace_value env label val s = Inr (fv, s')"
      and p: "second_pass env pii (AList.update label fv fj) s' = Inr (fj', s1)"
      by (auto split: sum.splits prod.splits)
    from replace_value_keeps[OF r Cons.prems(2)] Cons.IH[OF p] show ?thesis by simp
  qed
qed

lemma replace_pii_json_keeps:
  "replace_pii_json env pii s = Inr (fj, s1) \<Longrightarrow> replacement_cache s k = Some x
     \<Longrightarrow> replacement_cache s1 k = Some x"
  unfolding replace_pii_json_def
  by (auto split: sum.splits prod.splits dest!: first_pass_keeps second_pass_keeps)

lemma run_calls_keeps:
  "run_calls env calls s = Inr s1 \<Longrightarrow> replacement_cache s k = Some x
     \<Longrightarrow> replacement_cache s1 k = Some x"
proof (induction calls arbitrary: s)
  case Nil
  then show ?case by simp
next
  case (Cons c calls)
  then obtain s' where c: "run_call env c s = Inr s'" and r: "run_calls env calls s' = Inr s1"
    by (auto split: sum.splits)
  from c Cons.prems(2) have "replacement_cache s' k = Some x"
    by (cases c) (auto split: sum.splits prod.splits dest: generate_keeps replace_pii_json_keeps)
  with Cons.IH[OF r] show ?case .
qed

lemmas eval_defs = generate_fake_value_def init_faker_def cache_key_def fresh_value_def lower_def
  upper_def char_lower_def char_upper_def uppercase_letters_def lowercase_letters_def
  gen_name_def any_in_def name_titles_male_def name_titles_female_def is_patient_label_def
  Let_def sample_env_def

text \<open>
  Claim C1.  Within one cache lifetime, that is after any further calls on the same instance,
  asking again for the replacement of the same label and original value returns the very
  value generated the first time and leaves the instance unchanged.  (A different original
  value, or a fresh instance, may get another value: \<open>other_value_may_differ\<close> and
  \<open>fresh_cache_may_differ\<close> below.)
\<close>

theorem generate_fake_value_consistent:
  assumes "generate_fake_value env label v s = Inr (fv, s1)"
    and "run_calls env calls s1 = Inr s2"
  shows "generate_fake_value env label v s2 = Inr (fv, s2)"
  using generate_hit[OF run_calls_keeps[OF assms(2) generate_stores[OF assms(1)]]] .

theorem generate_fake_value_consistent_witness:
  "\<exists>s1 s2.
     generate_fake_value sample_env ''Patient Name'' ''Mr. Ravi Kumar'' (init_faker 0)
       = Inr (''Ravi Kumar'', s1)
     \<and> run_calls sample_env [Generate ''Patient Name'' ''Mr. Anil Shah''] s1 = Inr s2
     \<and> generate_fake_value sample_env ''Patient Name'' ''Mr. Ravi Kumar'' s2
       = Inr (''Ravi Kumar'', s2)"
proof -
  let ?s1 = "\<lparr>replacement_cache = [''Patient Name:Mr. Ravi Kumar'' \<mapsto> ''Ravi Kumar''],
              current_patient_name = Some ''Ravi Kumar'', rng = (1::nat)\<rparr>"
  let ?s2 = "\<lparr>replacement_cache = [''Patient Name:Mr. Ravi Kumar'' \<mapsto> ''Ravi Kumar'',
                                    ''Patient Name:Mr. Anil Shah'' \<mapsto> ''Arjun Singh''],
              current_patient_name = Some ''Arjun Singh'', rng = (2::nat)\<rparr>"
  have a: "generate_fake_value sample_env ''Patient Name'' ''Mr. Ravi Kumar'' (init_faker 0)
             = Inr (''Ravi Kumar'', ?s1)"
    by (simp add: eval_defs)
  have b: "run_calls sample_env [Generate ''Patient Name'' ''Mr. Anil Shah''] ?s1 = Inr ?s2"
    by (simp add: eval_defs)
  from generate_fake_value_consistent[OF a b] a b show ?thesis by blast
qed

lemma other_value_may_differ:
  "\<exists>s1 s2. generate_fake_value sample_env ''Patient Name'' ''Mr. Ravi Kumar'' (init_faker 0)
              = Inr (''Ravi Kumar'', s1)
         \<and> generate_fake_value sample_env ''Patient Name'' ''Mr. Anil Shah'' s1
              = Inr (''Arjun Singh'', s2)"
  by (simp add: eval_defs)

lemma fresh_cache_may_differ:
  "\<exists>s1 s2. generate_fake_value sample_env ''Patient Name'' ''Mr. Ravi Kumar'' (init_faker 0)
              = Inr (''Ravi Kumar'', s1)
         \<and> generate_fake_value sample_env ''Patient Name'' ''Mr. Ravi Kumar'' (init_faker 1)
              = Inr (''Arjun Singh'', s2)"
  by (simp add: eval_defs)

text \<open>
  Claim C9.  The key is the label, a colon and the original value, concatenated.  Two pairs
  whose keys coincide share one entry: once the first pair has been replaced, the second pair
  gets, at any later point of the same cache lifetime, the value generated for the first.
\<close>

theorem cache_key_collision:
  assumes "cache_key label1 v1 = cache_key label2 v2"
    and "generate_fake_value env label1 v1 s = Inr (fv, s1)"
    and "run_calls env calls s1 = Inr s2"
  shows "generate_fake_value env label2 v2 s2 = Inr (fv, s2)"
proof -
  from generate_stores[OF assms(2)] assms(1)
  have "replacement_cache s1 (cache_key label2 v2) = Some fv" by simp
  from generate_hit[OF run_calls_keeps[OF assms(3) this]] show ?thesis .
qed

theorem cache_key_collision_witness:
  "(''a:b'', ''c'') \<noteq> (''a'', ''b:c'') \<and> cache_key ''a:b'' ''c'' = cache_key ''a'' ''b:c''
   \<and> (\<exists>s1. generate_fake_value sample_env ''a:b'' ''c'' (init_faker 0) = Inr (''[FAKE_A_B]'', s1)
          \<and> run_calls sample_env [] s1 = Inr s1
          \<and> generate_fake_value sample_env ''a'' ''b:c'' s1 = Inr (''[FAKE_A_B]'', s1))
   \<and> (\<exists>s1. generate_fake_value sample_env ''a'' ''b:c'' (init_faker 0) = Inr (''[FAKE_A]'', s1))"
proof -
  let ?s1 = "\<lparr>replacement_cache = [''a:b:c'' \<mapsto> ''[FAKE_A_B]''],
              current_patient_name = None, rng = (0::nat)\<rparr>"
  have k: "cache_key ''a:b'' ''c'' = cache_key ''a'' ''b:c''"
    by (simp add: cache_key_def)
  have a: "generate_fake_value sample_env ''a:b'' ''c'' (init_faker 0) = Inr (''[FAKE_A_B]'', ?s1)"
    by (simp add: eval_defs gen_plain_def insurance_words_def generic_placeholder_def
        safe_label_def is_upper_def is_digit_def)
  have b: "run_calls sample_env [] ?s1 = Inr ?s1" by simp
  have c: "\<exists>s1. generate_fake_value sample_env ''a'' ''b:c'' (init_faker 0) = Inr (''[FAKE_A]'', s1)"
    by (simp add: eval_defs gen_plain_def insurance_words_def generic_placeholder_def
        safe_label_def is_upper_def is_digit_def)
  from cache_key_collision[OF k a b] k a b c show ?thesis by blast
qed

section \<open>The normalization of the entity list\<close>

lemma first_seen_cong: "set seen = set seen' \<Longrightarrow> first_seen seen xs = first_seen seen' xs"
proof (induction xs arbitrary: seen seen')
  case Nil
  then show ?case by simp
next
  case (Cons x xs)
  from Cons.prems have "set (x # seen) = set (x # seen')" by simp
  from Cons.IH[OF this] Cons.IH[OF Cons.prems] Cons.prems show ?case by simp
qed

lemma collapse_step_keys:
  "map fst (collapse_step d e) =
     (if e_label e \<in> set (map fst d) then map fst d else map fst d @ [e_label e])"
proof (cases "map_of d (e_label e)")
  case None
  then have "e_label e \<notin> fst ` set d" by (simp add: map_of_eq_None_iff)
  with None show ?thesis by (simp add: collapse_step_def update_keys)
next
  case (Some v)
  then have "e_label e \<in> fst ` set d" by (metis map_of_eq_None_iff option.distinct(1))
  with Some show ?thesis by (cases v) (simp_all add: collapse_step_def update_keys)
qed

lemma collapse_keys:
  "map fst (foldl collapse_step d es) = map fst d @ first_seen (map fst d) (map e_label es)"
proof (induction es arbitrary: d)
  case Nil
  then show ?case by simp
next
  case (Cons e es)
  show ?case
  proof (cases "e_label e \<in> set (map fst d)")
    case True
    with Cons[of "collapse_step d e"] show ?thesis by (simp add: collapse_step_keys)
  next
    case False
    have "first_seen (map fst d @ [e_label e]) (map e_label es)
            = first_seen (e_label e # map fst d) (map e_label es)"
      by (rule first_seen_cong) auto
    with False Cons[of "collapse_step d e"] show ?thesis by (simp add: collapse_step_keys)
  qed
qed

lemma collapse_step_values:
  "values_in (collapse_step d e) label =
     values_in d label @ (if e_label e = label then [e_text e] else [])"
  by (auto simp: collapse_step_def values_in_def Let_def update_conv'
      split: option.splits pii_value.splits)

lemma as_value_values_step:
  assumes "map_of d label = as_value (values_in d label)"
  shows "map_of (collapse_step d e) label = as_value (values_in (collapse_step d e) label)"
  using assms
  by (auto simp: collapse_step_def values_in_def as_value_def Let_def update_conv'
      split: option.splits pii_value.splits list.splits)

lemma collapse_values:
  assumes "\<And>l. map_of d l = as_value (values_in d l)"
  shows "map_of (foldl collapse_step d es) label = as_value (values_in d label @ texts_for label es)"
  using assms
proof (induction es arbitrary: d)
  case Nil
  then show ?case by (simp add: texts_for_def)
next
  case (Cons e es)
  have "\<And>l. map_of (collapse_step d e) l = as_value (values_in (collapse_step d e) l)"
    by (rule as_value_values_step) (rule Cons.prems)
  from Cons.IH[OF this] show ?case
    by (simp add: collapse_step_values texts_for_def)
qed

text \<open>
  Claim C8.  For every entity list of the oracle, the mapping the adapter builds has the labels
  in order of first appearance, and under each label exactly the texts of that label's
  entities in their order: as a scalar string when there is one, as a sequence (to which every
  later one was appended) when there are more.  No text is lost.
\<close>

theorem collapse_entities_correct:
  "map fst (collapse_entities entities) = first_labels entities
   \<and> map_of (collapse_entities entities) label = as_value (texts_for label entities)"
proof -
  have "map_of (collapse_entities entities) label = as_value (values_in [] label @ texts_for label entities)"
    unfolding collapse_entities_def by (rule collapse_values) (simp add: values_in_def as_value_def)
  then show ?thesis
    by (simp add: collapse_entities_def collapse_keys first_labels_def values_in_def)
qed


section \<open>The batch pass\<close>

lemma has_key_update: "has_key (AList.update k v d) l = (l = k \<or> has_key d l)"
  by (simp add: has_key_def update_conv')

lemma has_key_iff: "has_key d l = (l \<in> fst ` set d)"
  by (simp add: has_key_def map_of_eq_None_iff)

lemma generate_fake_list_length:
  "generate_fake_list env label vs s = Inr (fs, s1) \<Longrightarrow> length fs = length vs"
proof (induction vs arbitrary: s fs)
  case Nil
  then show ?case by simp
next
  case (Cons v vs)
  from Cons.prems obtain f s' fs' where "generate_fake_list env label vs s' = Inr (fs', s1)"
    and "fs = f # fs'"
    by (auto split: sum.splits prod.splits)
  with Cons.IH show ?case by simp
qed

lemma replace_value_shape:
  "replace_value env label v s = Inr (fv, s1) \<Longrightarrow> same_shape v fv"
  by (cases v) (auto simp: replace_value_def split: sum.splits prod.splits dest: generate_fake_list_length)

lemma first_pass_find:
  "first_pass env pii [] s =
     (case find (\<lambda>e. is_patient_label (fst e)) pii of
        None \<Rightarrow> Inr ([], s)
      | Some (label0, v0) \<Rightarrow>
          (case replace_value env label0 v0 s of
             Inl e \<Rightarrow> Inl e
           | Inr (fv, s1) \<Rightarrow> Inr ([(label0, fv)], set_anchor_from fv s1)))"
proof (induction pii)
  case Nil
  then show ?case by simp
next
  case (Cons e pii)
  obtain label v where e: "e = (label, v)" by (cases e)
  show ?case
  proof (cases "is_patient_label label")
    case True
    with e show ?thesis by (simp split: sum.splits prod.splits)
  next
    case False
    with e Cons show ?thesis by simp
  qed
qed

lemma second_pass_no_patient:
  "\<forall>e \<in> set pii. \<not> is_patient_label (fst e) \<Longrightarrow>
     second_pass env pii fj s = replace_in_order env pii fj s"
proof (induction pii arbitrary: fj s)
  case Nil
  then show ?case by simp
next
  case (Cons e pii)
  obtain label v where e: "e = (label, v)" by (cases e)
  from Cons.prems e have np: "\<not> is_patient_label label" by simp
  from Cons.prems have "\<forall>e \<in> set pii. \<not> is_patient_label (fst e)" by simp
  from Cons.IH[OF this] e np show ?case by (simp split: sum.splits prod.splits)
qed

lemma second_pass_skips_first:
  assumes "distinct (map fst pii)" and "is_patient_label label0" and "has_key fj label0"
    and "\<forall>l \<in> fst ` set pii. has_key fj l \<longrightarrow> l = label0"
  shows "second_pass env pii fj s = replace_in_order env (filter (\<lambda>e. fst e \<noteq> label0) pii) fj s"
  using assms
proof (induction pii arbitrary: fj s)
  case Nil
  then show ?case by simp
next
  case (Cons e pii)
  obtain label v where e: "e = (label, v)" by (cases e)
  from Cons.prems(1) e have d: "distinct (map fst pii)" and nl: "label \<notin> fst ` set pii" by auto
  show ?case
  proof (cases "label = label0")
    case True
    from Cons.prems(4) have "\<forall>l \<in> fst ` set pii. has_key fj l \<longrightarrow> l = label0" by simp
    from Cons.IH[OF d Cons.prems(2,3) this] True e Cons.prems(2,3) show ?thesis by simp
  next
    case False
    from Cons.prems(4) e False have nk: "\<not> has_key fj label" by auto
    have step: "second_pass env pii (AList.update label fv fj) s1
          = replace_in_order env (filter (\<lambda>e. fst e \<noteq> label0) pii) (AList.update label fv fj) s1"
      for fv s1
    proof (rule Cons.IH[OF d Cons.prems(2)])
      show "has_key (AList.update label fv fj) label0"
        using Cons.prems(3) by (simp add: has_key_update)
      show "\<forall>l \<in> fst ` set pii. has_key (AList.update label fv fj) l \<longrightarrow> l = label0"
        using Cons.prems(4) nl by (auto simp: has_key_update)
    qed
    from e False nk step show ?thesis by (simp split: sum.splits prod.splits)
  qed
qed

lemma find_Some_holds: "find P xs = Some x \<Longrightarrow> x \<in> set xs \<and> P x"
  by (induction xs) (auto split: if_splits)

lemma find_None_holds: "find P xs = None \<Longrightarrow> x \<in> set xs \<Longrightarrow> \<not> P x"
  by (induction xs) (auto split: if_splits)

lemma replace_pii_json_refines:
  assumes "distinct (map fst pii)"
  shows "replace_pii_json env pii s = first_patient_then_rest env pii s"
proof (cases "find (\<lambda>e. is_patient_label (fst e)) pii")
  case None
  then have "\<forall>e \<in> set pii. \<not> is_patient_label (fst e)"
    using find_None_holds[of "\<lambda>e. is_patient_label (fst e)" pii] by blast
  from second_pass_no_patient[OF this] None show ?thesis
    by (simp add: replace_pii_json_def first_patient_then_rest_def first_pass_find)
next
  case (Some e0)
  obtain label0 v0 where e0: "e0 = (label0, v0)" by (cases e0)
  from Some e0 have p: "is_patient_label label0"
    using find_Some_holds[of "\<lambda>e. is_patient_label (fst e)" pii e0] by simp
  have "second_pass env pii [(label0, fv)] s1
          = replace_in_order env (filter (\<lambda>e. fst e \<noteq> label0) pii) [(label0, fv)] s1" for fv s1
    by (rule second_pass_skips_first[OF assms p]) (simp_all add: has_key_def)
  with Some e0 show ?thesis
    by (simp add: replace_pii_json_def first_patient_then_rest_def first_pass_find
        split: sum.splits prod.splits)
qed

lemma replace_in_order_frame:
  "replace_in_order env pii fj s = Inr (fj', s1) \<Longrightarrow> l \<notin> fst ` set pii
     \<Longrightarrow> map_of fj' l = map_of fj l"
proof (induction pii arbitrary: fj s)
  case Nil
  then show ?case by simp
next
  case (Cons e pii)
  obtain label v where e: "e = (label, v)" by (cases e)
  from Cons.prems e obtain fv s' where
    p: "replace_in_order env pii (AList.update label fv fj) s' = Inr (fj', s1)"
    by (auto split: sum.splits prod.splits)
  from Cons.prems(2) e have "l \<notin> fst ` set pii" and "l \<noteq> label" by auto
  with Cons.IH[OF p] show ?case by (simp add: update_conv')
qed

lemma replace_in_order_shape:
  assumes "distinct (map fst pii)" and "replace_in_order env pii fj s = Inr (fj', s1)"
    and "(l, v) \<in> set pii"
  shows "\<exists>v'. map_of fj' l = Some v' \<and> same_shape v v'"
  using assms
proof (induction pii arbitrary: fj s)
  case Nil
  then show ?case by simp
next
  case (Cons e pii)
  obtain label x where e: "e = (label, x)" by (cases e)
  from Cons.prems(2) e obtain fv s' where
    r: "replace_value env label x s = Inr (fv, s')"
    and p: "replace_in_order env pii (AList.update label fv fj) s' = Inr (fj', s1)"
    by (auto split: sum.splits prod.splits)
  from Cons.prems(1) e have d: "distinct (map fst pii)" and nl: "label \<notin> fst ` set pii" by auto
  show ?case
  proof (cases "(l, v) \<in> set pii")
    case True
    from Cons.IH[OF d p True] show ?thesis .
  next
    case False
    with Cons.prems(3) e have lv: "l = label" "v = x" by auto
    from replace_in_order_frame[OF p nl] have "map_of fj' label = Some fv"
      by (simp add: update_conv')
    with replace_value_shape[OF r] lv show ?thesis by simp
  qed
qed

lemma replace_in_order_keys:
  "replace_in_order env pii fj s = Inr (fj', s1) \<Longrightarrow>
     set (map fst fj') = set (map fst fj) \<union> set (map fst pii)
     \<and> (distinct (map fst fj) \<longrightarrow> distinct (map fst fj'))"
proof (induction pii arbitrary: fj s)
  case Nil
  then show ?case by simp
next
  case (Cons e pii)
  obtain label v where e: "e = (label, v)" by (cases e)
  from Cons.prems e obtain fv s' where
    p: "replace_in_order env pii (AList.update label fv fj) s' = Inr (fj', s1)"
    by (auto split: sum.splits prod.splits)
  from Cons.IH[OF p] e show ?case
    by (auto simp: update_keys distinct_update split: if_splits)
qed


lemma second_pass_keys:
  "second_pass env pii fj s = Inr (fj', s1) \<Longrightarrow>
     set (map fst fj') = set (map fst fj) \<union> set (map fst pii)
     \<and> (distinct (map fst fj) \<longrightarrow> distinct (map fst fj'))"
proof (induction pii arbitrary: fj s)
  case Nil
  then show ?case by simp
next
  case (Cons e pii)
  obtain label v where e: "e = (label, v)" by (cases e)
  show ?case
  proof (cases "is_patient_label label \<and> has_key fj label")
    case True
    with Cons.prems e have p: "second_pass env pii fj s = Inr (fj', s1)" by simp
    from True have "label \<in> set (map fst fj)" by (simp add: has_key_iff)
    with Cons.IH[OF p] e show ?thesis by auto
  next
    case False
    with Cons.prems e obtain fv s' where
      p: "second_pass env pii (AList.update label fv fj) s' = Inr (fj', s1)"
      by (auto split: sum.splits prod.splits)
    from Cons.IH[OF p] e show ?thesis
      by (auto simp: update_keys distinct_update split: if_splits)
  qed
qed

lemma first_pass_keys:
  assumes "first_pass env pii [] s = Inr (fj, s1)"
  shows "set (map fst fj) \<subseteq> set (map fst pii) \<and> distinct (map fst fj)"
proof (cases "find (\<lambda>e. is_patient_label (fst e)) pii")
  case None
  with assms show ?thesis by (simp add: first_pass_find)
next
  case (Some e0)
  obtain label0 v0 where e0: "e0 = (label0, v0)" by (cases e0)
  from Some e0 have "(label0, v0) \<in> set pii"
    using find_Some_holds[of "\<lambda>e. is_patient_label (fst e)" pii e0] by simp
  then have "label0 \<in> set (map fst pii)" by force
  moreover from assms Some e0 have "fj = [] \<or> (\<exists>fv. fj = [(label0, fv)])"
    by (auto simp: first_pass_find split: sum.splits prod.splits)
  ultimately show ?thesis by (elim disjE exE) simp_all
qed

text \<open>
  Claim C10.  Whenever the batch replacement returns, the mapping it returns has exactly the
  labels of the input mapping, each once: none is dropped and none is added.
\<close>

theorem replace_pii_json_keys:
  assumes "replace_pii_json env pii s = Inr (fake_json, s1)"
  shows "set (map fst fake_json) = set (map fst pii) \<and> distinct (map fst fake_json)"
proof -
  from assms obtain fj s' where
    f: "first_pass env pii [] (s\<lparr>current_patient_name := None\<rparr>) = Inr (fj, s')"
    and p: "second_pass env pii fj s' = Inr (fake_json, s1)"
    by (auto simp: replace_pii_json_def split: sum.splits prod.splits)
  from first_pass_keys[OF f] second_pass_keys[OF p] show ?thesis by auto
qed

lemma fresh_value_returns:
  "\<not> contains ''email'' (lower label) \<Longrightarrow> \<exists>r. fresh_value env label v s = Inr r"
  by (simp add: fresh_value_def Let_def split: prod.splits)

lemma generate_fake_value_returns:
  "\<not> contains ''email'' (lower label) \<Longrightarrow> \<exists>r. generate_fake_value env label v s = Inr r"
  using fresh_value_returns[of label env v s]
  by (auto simp: generate_fake_value_def split: option.splits sum.splits)

lemma generate_fake_list_returns:
  "\<not> contains ''email'' (lower label) \<Longrightarrow> \<exists>r. generate_fake_list env label vs s = Inr r"
proof (induction vs arbitrary: s)
  case Nil
  then show ?case by simp
next
  case (Cons v vs)
  from generate_fake_value_returns[OF Cons.prems] obtain f s' where
    g: "generate_fake_value env label v s = Inr (f, s')" by force
  from Cons.IH[OF Cons.prems] obtain fs s'' where
    "generate_fake_list env label vs s' = Inr (fs, s'')" by force
  with g show ?case by simp
qed

lemma replace_value_returns:
  "\<not> contains ''email'' (lower label) \<Longrightarrow> \<exists>r. replace_value env label v s = Inr r"
proof (cases v)
  case (Scalar x)
  assume "\<not> contains ''email'' (lower label)"
  from generate_fake_value_returns[OF this, of env x s] Scalar show ?thesis
    by (auto simp: replace_value_def)
next
  case (Seq xs)
  assume "\<not> contains ''email'' (lower label)"
  from generate_fake_list_returns[OF this, of env xs s] Seq show ?thesis
    by (auto simp: replace_value_def)
qed

lemma first_pass_returns:
  "\<forall>e \<in> set pii. \<not> contains ''email'' (lower (fst e)) \<Longrightarrow> \<exists>r. first_pass env pii fj s = Inr r"
proof (induction pii)
  case Nil
  then show ?case by simp
next
  case (Cons e pii)
  obtain label v where e: "e = (label, v)" by (cases e)
  from Cons.prems e have "\<not> contains ''email'' (lower label)" by simp
  from replace_value_returns[OF this, of env v s] obtain fv s' where
    "replace_value env label v s = Inr (fv, s')" by force
  with Cons e show ?case by simp
qed

lemma second_pass_returns:
  "\<forall>e \<in> set pii. \<not> contains ''email'' (lower (fst e)) \<Longrightarrow> \<exists>r. second_pass env pii fj s = Inr r"
proof (induction pii arbitrary: fj s)
  case Nil
  then show ?case by simp
next
  case (Cons e pii)
  obtain label v where e: "e = (label, v)" by (cases e)
  from Cons.prems e have "\<not> contains ''email'' (lower label)" by simp
  from replace_value_returns[OF this, of env v s] obtain fv s' where
    r: "replace_value env label v s = Inr (fv, s')" by force
  from Cons.prems have "\<forall>e \<in> set pii. \<not> contains ''email'' (lower (fst e))" by simp
  from Cons.IH[OF this] e r show ?case by simp
qed

lemma replace_pii_json_returns:
  assumes "\<forall>e \<in> set pii. \<not> contains ''email'' (lower (fst e))"
  shows "\<exists>r. replace_pii_json env pii s = Inr r"
proof -
  from first_pass_returns[OF assms] obtain fj s' where
    "first_pass env pii [] (s\<lparr>current_patient_name := None\<rparr>) = Inr (fj, s')" by force
  with second_pass_returns[OF assms, of env fj s'] show ?thesis
    by (simp add: replace_pii_json_def)
qed

lemma gen_email_raises_iff:
  "(\<exists>e. gen_email env s = Inl e) =
     (\<exists>a. current_patient_name s = Some a \<and> a \<noteq> [] \<and> name_parts_of a = [])"
  by (auto simp: gen_email_def Let_def split: option.splits prod.splits list.splits)

text \<open>
  Claim C5, amended.  On a mapping (distinct labels) the batch replacement resets the anchor,
  replaces the first patient-name label of the mapping before every other label and makes its
  replacement the anchor, then replaces all remaining labels, further patient-name labels
  among them, in the mapping's order.  Whenever it returns, every label of the input has a
  replacement of the same shape: a scalar for a scalar, a sequence of equal length for a
  sequence.
\<close>

theorem replace_pii_json_batch:
  assumes "distinct (map fst pii)"
  shows "replace_pii_json env pii s = first_patient_then_rest env pii s
     \<and> (\<forall>fake_json s1 l v. replace_pii_json env pii s = Inr (fake_json, s1) \<longrightarrow> (l, v) \<in> set pii
          \<longrightarrow> (\<exists>v'. map_of fake_json l = Some v' \<and> same_shape v v'))"
proof (intro conjI allI impI)
  show eq: "replace_pii_json env pii s = first_patient_then_rest env pii s"
    by (rule replace_pii_json_refines[OF assms])
  fix fake_json s1 l v
  assume "replace_pii_json env pii s = Inr (fake_json, s1)" and lv: "(l, v) \<in> set pii"
  with eq have r: "first_patient_then_rest env pii s = Inr (fake_json, s1)" by simp
  show "\<exists>v'. map_of fake_json l = Some v' \<and> same_shape v v'"
  proof (cases "find (\<lambda>e. is_patient_label (fst e)) pii")
    case None
    with r have "replace_in_order env pii [] (s\<lparr>current_patient_name := None\<rparr>) = Inr (fake_json, s1)"
      by (simp add: first_patient_then_rest_def)
    from replace_in_order_shape[OF assms this lv] show ?thesis .
  next
    case (Some e0)
    obtain label0 v0 where e0: "e0 = (label0, v0)" by (cases e0)
    let ?rest = "filter (\<lambda>e. fst e \<noteq> label0) pii"
    from Some e0 r obtain fv s' where
      rv: "replace_value env label0 v0 (s\<lparr>current_patient_name := None\<rparr>) = Inr (fv, s')"
      and p: "replace_in_order env ?rest [(label0, fv)] (set_anchor_from fv s') = Inr (fake_json, s1)"
      by (auto simp: first_patient_then_rest_def split: sum.splits prod.splits)
    from Some e0 have in0: "(label0, v0) \<in> set pii"
      using find_Some_holds[of "\<lambda>e. is_patient_label (fst e)" pii e0] by simp
    have d: "distinct (map fst ?rest)" using assms by (rule distinct_map_filter)
    show ?thesis
    proof (cases "l = label0")
      case True
      with assms lv in0 have "v = v0" by (meson eq_key_imp_eq_value)
      have "label0 \<notin> fst ` set ?rest" by auto
      from replace_in_order_frame[OF p this] have "map_of fake_json label0 = Some fv" by simp
      with replace_value_shape[OF rv] True \<open>v = v0\<close> show ?thesis by simp
    next
      case False
      with lv have "(l, v) \<in> set ?rest" by simp
      from replace_in_order_shape[OF d p this] show ?thesis .
    qed
  qed
qed


section \<open>The batch pass on concrete mappings\<close>

lemmas batch_eval_defs = eval_defs replace_pii_json_def replace_value_def gen_email_def
  name_parts_of_def split_ws_def is_space_def clean_for_email_def is_lower_def choice_def
  domain_options_def has_key_def set_anchor_from_def

lemma batch_example_two_names:
  "\<exists>s1. replace_pii_json sample_env
          [(''email'', Scalar ''a@b.c''), (''name'', Scalar ''Mr. X''),
           (''Patient Name'', Scalar ''Dr. Asha'')] (init_faker 0)
        = Inr ([(''name'', Scalar ''Ravi Kumar''), (''email'', Scalar ''ravi.kumar@example.org''),
                (''Patient Name'', Scalar ''Dr. Kiran Rao'')], s1)"
  by (simp add: batch_eval_defs)

lemma batch_example_list:
  "\<exists>s1. replace_pii_json sample_env
          [(''email'', Scalar ''a@b.c''), (''Patient Name'', Seq [''Mr. A'', ''Mrs. B''])] (init_faker 0)
        = Inr ([(''Patient Name'', Seq [''Ravi Kumar'', ''Arjun Singh'']),
                (''email'', Scalar ''ravi.kumar@test.com'')], s1)"
  by (simp add: batch_eval_defs)

lemma batch_example_dr:
  "\<exists>s1. replace_pii_json sample_env
          [(''Patient Name'', Scalar ''Dr. Asha''), (''email'', Scalar ''a@b.c'')] (init_faker 0)
        = Inr ([(''Patient Name'', Scalar ''Dr. Kiran Rao''),
                (''email'', Scalar ''kiran.rao@example.org'')], s1)"
  by (simp add: batch_eval_defs)

lemma batch_example_unrecognized:
  "\<exists>s1. replace_pii_json sample_env
          [(''error'', Scalar ''PII Detection failed: boom''), (''blood type'', Seq [''O+'', ''A-''])]
          (init_faker 0)
        = Inr ([(''error'', Scalar ''[FAKE_ERROR]''),
                (''blood type'', Seq [''[FAKE_BLOOD_TYPE]'', ''[FAKE_BLOOD_TYPE]''])], s1)"
  by (simp add: batch_eval_defs gen_plain_def insurance_words_def generic_placeholder_def
      safe_label_def is_upper_def is_digit_def)

section \<open>The email and name branches\<close>

lemma choice_in_set: "xs \<noteq> [] \<Longrightarrow> fst (choice env xs r) \<in> set xs"
  by (simp add: choice_def split: prod.splits)

lemma generate_miss:
  assumes "replacement_cache s (cache_key label v) = None"
    and "fresh_value env label v s = Inr (fv, s1)"
  shows "generate_fake_value env label v s
           = Inr (fv, s1\<lparr>replacement_cache := (replacement_cache s1)(cache_key label v \<mapsto> fv)\<rparr>)"
  using assms by (simp add: generate_fake_value_def)

lemma fresh_value_email:
  "reaches_email_branch label \<Longrightarrow> fresh_value env label v s = gen_email env s"
  by (simp add: reaches_email_branch_def fresh_value_def Let_def)

lemma gen_email_two_parts:
  assumes "current_patient_name s = Some a" and "a \<noteq> []" and "2 \<le> length (name_parts_of a)"
  shows "gen_email env s =
           Inr (clean_for_email (hd (name_parts_of a)) @ ''.'' @ clean_for_email (last (name_parts_of a))
                  @ ''@'' @ fst (choice env domain_options (rng s)),
                s\<lparr>rng := snd (choice env domain_options (rng s))\<rparr>)"
  using assms by (simp add: gen_email_def Let_def split: prod.splits)

lemma gen_email_one_part:
  assumes "current_patient_name s = Some a" and "a \<noteq> []" and "name_parts_of a = [p]"
  shows "gen_email env s =
           Inr (clean_for_email p @ ''@''
                  @ fst (choice env [''example.com'', ''example.org'', ''test.com''] (rng s)),
                s\<lparr>rng := snd (choice env [''example.com'', ''example.org'', ''test.com''] (rng s))\<rparr>)"
  using assms by (simp add: gen_email_def Let_def split: prod.splits)

lemma gen_email_no_anchor:
  assumes "current_patient_name s = None"
  shows "gen_email env s = Inr (fst (email_any env (rng s)), s\<lparr>rng := snd (email_any env (rng s))\<rparr>)"
  using assms by (simp add: gen_email_def split: prod.splits)

text \<open>
  Claim C4, amended.  When an email label is replaced on a cache miss and the name anchor is
  set, the anchor is lower-cased, every occurrence of \<^verbatim>\<open>dr. \<close> is removed, and the rest is
  split at whitespace.  With two or more tokens the address is the first and the last token,
  each stripped of everything but the letters a to z, joined by a period, then an at sign and
  a domain of the five-domain vocabulary.  With one token it is that token, stripped, and one
  of the first three domains.  When no anchor is set, the address is the one the synthetic-data
  library generates, and the generation does not fail.
\<close>

theorem email_from_anchor:
  assumes "reaches_email_branch label" and "replacement_cache s (cache_key label v) = None"
  shows "(\<forall>a. current_patient_name s = Some a \<longrightarrow> a \<noteq> [] \<longrightarrow> 2 \<le> length (name_parts_of a) \<longrightarrow>
            (\<exists>d s1. d \<in> set domain_options
               \<and> generate_fake_value env label v s
                   = Inr (clean_for_email (hd (name_parts_of a)) @ ''.''
                            @ clean_for_email (last (name_parts_of a)) @ ''@'' @ d, s1)))
       \<and> (\<forall>a p. current_patient_name s = Some a \<longrightarrow> a \<noteq> [] \<longrightarrow> name_parts_of a = [p] \<longrightarrow>
            (\<exists>d s1. d \<in> set [''example.com'', ''example.org'', ''test.com'']
               \<and> generate_fake_value env label v s = Inr (clean_for_email p @ ''@'' @ d, s1)))
       \<and> (current_patient_name s = None \<longrightarrow>
            (\<exists>s1. generate_fake_value env label v s = Inr (fst (email_any env (rng s)), s1)))"
proof (intro conjI allI impI)
  fix a
  assume "current_patient_name s = Some a" "a \<noteq> []" "2 \<le> length (name_parts_of a)"
  from gen_email_two_parts[OF this, of env] fresh_value_email[OF assms(1), of env v s]
  have f: "fresh_value env label v s =
           Inr (clean_for_email (hd (name_parts_of a)) @ ''.'' @ clean_for_email (last (name_parts_of a))
                  @ ''@'' @ fst (choice env domain_options (rng s)),
                s\<lparr>rng := snd (choice env domain_options (rng s))\<rparr>)" by simp
  have "fst (choice env domain_options (rng s)) \<in> set domain_options"
    by (rule choice_in_set) (simp add: domain_options_def)
  with generate_miss[OF assms(2) f]
  show "\<exists>d s1. d \<in> set domain_options
               \<and> generate_fake_value env label v s
                   = Inr (clean_for_email (hd (name_parts_of a)) @ ''.''
                            @ clean_for_email (last (name_parts_of a)) @ ''@'' @ d, s1)"
    by blast
next
  fix a p
  assume "current_patient_name s = Some a" "a \<noteq> []" "name_parts_of a = [p]"
  from gen_email_one_part[OF this, of env] fresh_value_email[OF assms(1), of env v s]
  have f: "fresh_value env label v s =
           Inr (clean_for_email p @ ''@''
                  @ fst (choice env [''example.com'', ''example.org'', ''test.com''] (rng s)),
                s\<lparr>rng := snd (choice env [''example.com'', ''example.org'', ''test.com''] (rng s))\<rparr>)"
    by simp
  have "fst (choice env [''example.com'', ''example.org'', ''test.com''] (rng s))
          \<in> set [''example.com'', ''example.org'', ''test.com'']"
    by (rule choice_in_set) simp
  with generate_miss[OF assms(2) f]
  show "\<exists>d s1. d \<in> set [''example.com'', ''example.org'', ''test.com'']
               \<and> generate_fake_value env label v s = Inr (clean_for_email p @ ''@'' @ d, s1)"
    by blast
next
  assume "current_patient_name s = None"
  from gen_email_no_anchor[OF this, of env] fresh_value_email[OF assms(1), of env v s]
  have f: "fresh_value env label v s
             = Inr (fst (email_any env (rng s)), s\<lparr>rng := snd (email_any env (rng s))\<rparr>)" by simp
  from generate_miss[OF assms(2) f]
  show "\<exists>s1. generate_fake_value env label v s = Inr (fst (email_any env (rng s)), s1)" by blast
qed

theorem email_from_anchor_witness:
  "reaches_email_branch ''email''
   \<and> (\<exists>d s1. d \<in> set domain_options
        \<and> generate_fake_value sample_env ''email'' ''a@b.c''
             \<lparr>replacement_cache = Map.empty, current_patient_name = Some ''Dr. Ravi Kumar'', rng = 0\<rparr>
            = Inr (''ravi.kumar@'' @ d, s1))
   \<and> (\<exists>d s1. d \<in> set [''example.com'', ''example.org'', ''test.com'']
        \<and> generate_fake_value sample_env ''email'' ''a@b.c''
             \<lparr>replacement_cache = Map.empty, current_patient_name = Some ''Madonna'', rng = 0\<rparr>
            = Inr (''madonna@'' @ d, s1))
   \<and> (\<exists>s1. generate_fake_value sample_env ''email'' ''a@b.c'' (init_faker 0)
            = Inr (fst (email_any sample_env 0), s1))"
proof -
  let ?s2 = "\<lparr>replacement_cache = Map.empty, current_patient_name = Some ''Dr. Ravi Kumar'', rng = (0::nat)\<rparr>"
  let ?s1 = "\<lparr>replacement_cache = Map.empty, current_patient_name = Some ''Madonna'', rng = (0::nat)\<rparr>"
  have b: "reaches_email_branch ''email''"
    by (simp add: reaches_email_branch_def lower_def char_lower_def uppercase_letters_def
        lowercase_letters_def)
  have p2: "name_parts_of ''Dr. Ravi Kumar'' = [''ravi'', ''kumar'']"
    by (simp add: name_parts_of_def split_ws_def is_space_def lower_def char_lower_def
        uppercase_letters_def lowercase_letters_def)
  have p1: "name_parts_of ''Madonna'' = [''madonna'']"
    by (simp add: name_parts_of_def split_ws_def is_space_def lower_def char_lower_def
        uppercase_letters_def lowercase_letters_def)
  have c: "clean_for_email ''ravi'' = ''ravi''" "clean_for_email ''kumar'' = ''kumar''"
    "clean_for_email ''madonna'' = ''madonna''"
    by (simp_all add: clean_for_email_def is_lower_def lower_def char_lower_def
        uppercase_letters_def lowercase_letters_def)
  from email_from_anchor[OF b, of ?s2 "''a@b.c''" sample_env] p2 c
  have "\<exists>d s1. d \<in> set domain_options
        \<and> generate_fake_value sample_env ''email'' ''a@b.c'' ?s2 = Inr (''ravi.kumar@'' @ d, s1)"
    by simp
  moreover from email_from_anchor[OF b, of ?s1 "''a@b.c''" sample_env] p1 c
  have "\<exists>d s1. d \<in> set [''example.com'', ''example.org'', ''test.com'']
        \<and> generate_fake_value sample_env ''email'' ''a@b.c'' ?s1 = Inr (''madonna@'' @ d, s1)"
    by simp
  moreover from email_from_anchor[OF b, of "init_faker 0" "''a@b.c''" sample_env]
  have "\<exists>s1. generate_fake_value sample_env ''email'' ''a@b.c'' (init_faker 0)
            = Inr (fst (email_any sample_env 0), s1)"
    by (simp add: init_faker_def)
  ultimately show ?thesis using b by blast
qed

text \<open>
  The claim as worded fails when the anchor carries the doctor title: the first token of
  \<^verbatim>\<open>Dr. Kiran Rao\<close> is the title, but the address starts with the given name.
\<close>

theorem email_local_part_counterexample:
  "map_sum id fst (replace_pii_json sample_env
       [(''Patient Name'', Scalar ''Dr. Asha''), (''email'', Scalar ''a@b.c'')] (init_faker 0))
     = Inr [(''Patient Name'', Scalar ''Dr. Kiran Rao''), (''email'', Scalar ''kiran.rao@example.org'')]
   \<and> claimed_local_part ''Dr. Kiran Rao'' = ''dr.rao''"
proof -
  from batch_example_dr obtain s1 where
    "replace_pii_json sample_env
       [(''Patient Name'', Scalar ''Dr. Asha''), (''email'', Scalar ''a@b.c'')] (init_faker 0)
     = Inr ([(''Patient Name'', Scalar ''Dr. Kiran Rao''),
             (''email'', Scalar ''kiran.rao@example.org'')], s1)" ..
  moreover have "claimed_local_part ''Dr. Kiran Rao'' = ''dr.rao''"
    by (simp add: claimed_local_part_def split_ws_def is_space_def clean_for_email_def is_lower_def
        lower_def char_lower_def uppercase_letters_def lowercase_letters_def)
  ultimately show ?thesis by simp
qed

lemma startswith_lower: "startswith s p \<Longrightarrow> startswith (lower s) (lower p)"
  by (induction s p rule: startswith.induct) (simp_all add: lower_def)

lemma contains_lower: "contains needle s \<Longrightarrow> contains (lower needle) (lower s)"
proof (induction s)
  case Nil
  then show ?case by (simp add: lower_def)
next
  case (Cons c cs)
  from Cons.prems have "startswith (c # cs) needle \<or> contains needle cs" by simp
  then show ?case
  proof
    assume "startswith (c # cs) needle"
    from startswith_lower[OF this] show ?thesis by (simp add: lower_def)
  next
    assume "contains needle cs"
    from Cons.IH[OF this] show ?thesis by (simp add: lower_def)
  qed
qed

lemma name_branch_male:
  assumes "any_in name_titles_male (lower v)"
    and "contains ''patient name'' (lower label) \<or> contains ''name'' (lower label)"
    and "replacement_cache s (cache_key label v) = None"
  shows "\<exists>s1. generate_fake_value env label v s = Inr (fst (name_male env (rng s)), s1)"
proof -
  from assms(1,2) have "\<exists>s1. fresh_value env label v s = Inr (fst (name_male env (rng s)), s1)"
    by (auto simp: fresh_value_def gen_name_def Let_def split: prod.splits)
  then obtain s1 where "fresh_value env label v s = Inr (fst (name_male env (rng s)), s1)" ..
  from generate_miss[OF assms(3) this] show ?thesis by blast
qed

lemma mr_title_selects_male:
  assumes "contains ''Mr.'' v"
    and "contains ''patient name'' (lower label) \<or> contains ''name'' (lower label)"
    and "replacement_cache s (cache_key label v) = None"
  shows "\<exists>s1. generate_fake_value env label v s = Inr (fst (name_male env (rng s)), s1)"
proof -
  from contains_lower[OF assms(1)] have "contains ''mr.'' (lower v)"
    by (simp add: lower_def char_lower_def uppercase_letters_def lowercase_letters_def)
  then have "any_in name_titles_male (lower v)"
    by (simp add: any_in_def name_titles_male_def)
  from name_branch_male[OF this assms(2,3)] show ?thesis .
qed

text \<open>
  Claim C3.  On a name-like label the branch is chosen by honorific substrings of the original
  value.  A value with the title \<^verbatim>\<open>Mr.\<close> always gets a male name on a cache miss
  (\<open>mr_title_selects_male\<close>).  But the male test comes first and looks for the substring
  \<^verbatim>\<open>mr\<close>, which every \<^verbatim>\<open>Mrs.\<close> contains: on a fresh instance, whatever the generators, the
  patient \<^verbatim>\<open>Mrs. Sita Devi\<close> gets the value of the male-name generator, although \<^verbatim>\<open>mrs.\<close>
  is listed among the titles that select a female name.
\<close>

theorem mrs_title_gets_male_name:
  "\<exists>s1. generate_fake_value env ''Patient Name'' ''Mrs. Sita Devi'' (init_faker r)
          = Inr (fst (name_male env r), s1)"
proof -
  have "any_in name_titles_male (lower ''Mrs. Sita Devi'')"
    by (simp add: any_in_def name_titles_male_def lower_def char_lower_def uppercase_letters_def
        lowercase_letters_def)
  moreover have "contains ''patient name'' (lower ''Patient Name'')"
    by (simp add: lower_def char_lower_def uppercase_letters_def lowercase_letters_def)
  moreover have "replacement_cache (init_faker r) (cache_key ''Patient Name'' ''Mrs. Sita Devi'') = None"
    by (simp add: init_faker_def)
  ultimately show ?thesis
    using name_branch_male[of "''Mrs. Sita Devi''" "''Patient Name''" "init_faker r" env]
    by (simp add: init_faker_def)
qed

lemma unrecognized_label_placeholder:
  assumes "\<not> any_in dispatch_keywords (lower label)" and "\<not> any_in insurance_words (lower v)"
    and "replacement_cache s (cache_key label v) = None"
  shows "\<exists>s1. generate_fake_value env label v s = Inr (generic_placeholder label, s1)"
proof -
  from assms(1,2) have "fresh_value env label v s = Inr (generic_placeholder label, s)"
    by (simp add: fresh_value_def gen_plain_def any_in_def dispatch_keywords_def Let_def)
  from generate_miss[OF assms(3) this] show ?thesis by blast
qed

text \<open>A value with the doctor title and a male token loses the title as well.\<close>

lemma dr_title_with_male_token:
  "\<exists>s1. generate_fake_value env ''Patient Name'' ''Dr. Srinivas Rao'' (init_faker r)
          = Inr (fst (name_male env r), s1)"
proof -
  have "any_in name_titles_male (lower ''Dr. Srinivas Rao'')"
    by (simp add: any_in_def name_titles_male_def lower_def char_lower_def uppercase_letters_def
        lowercase_letters_def)
  moreover have "contains ''patient name'' (lower ''Patient Name'')"
    by (simp add: lower_def char_lower_def uppercase_letters_def lowercase_letters_def)
  ultimately show ?thesis
    using name_branch_male[of "''Dr. Srinivas Rao''" "''Patient Name''" "init_faker r" env]
    by (simp add: init_faker_def)
qed

theorem replace_pii_json_keys_witness:
  "\<exists>out s1. replace_pii_json sample_env
          [(''error'', Scalar ''PII Detection failed: boom''), (''blood type'', Seq [''O+'', ''A-''])]
          (init_faker 0) = Inr (out, s1)
      \<and> set (map fst out) = {''error'', ''blood type''} \<and> distinct (map fst out)"
proof -
  from batch_example_unrecognized obtain s1 where
    ev: "replace_pii_json sample_env
          [(''error'', Scalar ''PII Detection failed: boom''), (''blood type'', Seq [''O+'', ''A-''])]
          (init_faker 0)
        = Inr ([(''error'', Scalar ''[FAKE_ERROR]''),
                (''blood type'', Seq [''[FAKE_BLOOD_TYPE]'', ''[FAKE_BLOOD_TYPE]''])], s1)" ..
  from replace_pii_json_keys[OF ev] ev show ?thesis by auto
qed

theorem replace_pii_json_batch_witness:
  "distinct (map fst [(''email'', Scalar ''a@b.c''), (''Patient Name'', Seq [''Mr. A'', ''Mrs. B''])])
   \<and> (\<exists>s1. first_patient_then_rest sample_env
          [(''email'', Scalar ''a@b.c''), (''Patient Name'', Seq [''Mr. A'', ''Mrs. B''])] (init_faker 0)
        = Inr ([(''Patient Name'', Seq [''Ravi Kumar'', ''Arjun Singh'']),
                (''email'', Scalar ''ravi.kumar@test.com'')], s1))
   \<and> same_shape (Seq [''Mr. A'', ''Mrs. B'']) (Seq [''Ravi Kumar'', ''Arjun Singh''])
   \<and> same_shape (Scalar ''a@b.c'') (Scalar ''ravi.kumar@test.com'')"
proof -
  let ?pii = "[(''email'', Scalar ''a@b.c''), (''Patient Name'', Seq [''Mr. A'', ''Mrs. B''])]"
  have d: "distinct (map fst ?pii)" by simp
  from batch_example_list obtain s1 where
    ev: "replace_pii_json sample_env ?pii (init_faker 0)
        = Inr ([(''Patient Name'', Seq [''Ravi Kumar'', ''Arjun Singh'']),
                (''email'', Scalar ''ravi.kumar@test.com'')], s1)" ..
  from replace_pii_json_batch[OF d, of sample_env "init_faker 0"] ev
  have "first_patient_then_rest sample_env ?pii (init_faker 0)
        = Inr ([(''Patient Name'', Seq [''Ravi Kumar'', ''Arjun Singh'']),
                (''email'', Scalar ''ravi.kumar@test.com'')], s1)"
    by simp
  with d show ?thesis by auto
qed

text \<open>
  The claim as worded fails on a mapping with two patient-name labels: only the first one,
  \<^verbatim>\<open>name\<close>, is replaced before the email; \<^verbatim>\<open>Patient Name\<close> is replaced after it, in its place in
  the mapping (the returned mapping lists the labels in the order they were replaced).
\<close>

theorem second_patient_label_counterexample:
  "map_sum id fst (replace_pii_json sample_env
       [(''email'', Scalar ''a@b.c''), (''name'', Scalar ''Mr. X''),
        (''Patient Name'', Scalar ''Dr. Asha'')] (init_faker 0))
     = Inr [(''name'', Scalar ''Ravi Kumar''), (''email'', Scalar ''ravi.kumar@example.org''),
            (''Patient Name'', Scalar ''Dr. Kiran Rao'')]
   \<and> is_patient_label ''Patient Name'' \<and> \<not> is_patient_label ''email''"
proof -
  from batch_example_two_names obtain s1 where
    "replace_pii_json sample_env
       [(''email'', Scalar ''a@b.c''), (''name'', Scalar ''Mr. X''),
        (''Patient Name'', Scalar ''Dr. Asha'')] (init_faker 0)
     = Inr ([(''name'', Scalar ''Ravi Kumar''), (''email'', Scalar ''ravi.kumar@example.org''),
             (''Patient Name'', Scalar ''Dr. Kiran Rao'')], s1)" ..
  moreover have "is_patient_label ''Patient Name'' \<and> \<not> is_patient_label ''email''"
    by (simp add: is_patient_label_def lower_def char_lower_def uppercase_letters_def
        lowercase_letters_def)
  ultimately show ?thesis by simp
qed


section \<open>PDF extraction\<close>

lemma ocr_best_images:
  "ocr_images (snd (ocr_best w img configs best)) = replicate (length configs) img"
  by (induction configs arbitrary: best) (simp_all add: ocr_images_def Let_def case_prod_beta)

lemma ocr_images_append: "ocr_images (xs @ ys) = ocr_images xs @ ocr_images ys"
  by (simp add: ocr_images_def)

lemma ocr_pages_loop_images:
  "ocr_images (snd (ocr_pages_loop w pages acc)) = concat (map (\<lambda>pg. [pg, pg]) pages)"
proof (induction pages arbitrary: acc)
  case Nil
  then show ?case by (simp add: ocr_images_def)
next
  case (Cons pg pages)
  have "ocr_images (snd (ocr_best w pg pdf_configs [])) = replicate (length pdf_configs) pg"
    by (rule ocr_best_images)
  then have "ocr_images (snd (ocr_best w pg pdf_configs [])) = [pg, pg]"
    by (simp add: pdf_configs_def)
  with Cons show ?case
    by (simp add: Let_def ocr_images_append case_prod_beta)
qed

lemma direct_text_loop_found:
  "direct_text_loop pages tf ft = Inr (tf', ft') \<Longrightarrow> tf' = (tf \<or> list_ex has_text pages)"
proof (induction pages arbitrary: tf ft)
  case Nil
  then show ?case by simp
next
  case (Cons page pages)
  show ?case
  proof (cases page)
    case (Inl msg)
    with Cons.prems show ?thesis by simp
  next
    case (Inr raw)
    show ?thesis
    proof (cases "strip raw = []")
      case True
      with Cons.prems Inr have "direct_text_loop pages tf ft = Inr (tf', ft')" by simp
      from Cons.IH[OF this] Inr True show ?thesis by (simp add: has_text_def)
    next
      case False
      with Cons.prems Inr have "direct_text_loop pages True (ft @ [strip raw]) = Inr (tf', ft')"
        by simp
      from Cons.IH[OF this] Inr False show ?thesis by (simp add: has_text_def)
    qed
  qed
qed

lemma direct_text_loop_all_read:
  "direct_text_loop (map Inr texts) tf ft
     = Inr (tf \<or> list_ex has_text (map Inr texts), ft @ filter (\<lambda>t. t \<noteq> []) (map strip texts))"
  by (induction texts arbitrary: tf ft) (simp_all add: has_text_def Let_def)

lemma pdf_text_layer_no_events:
  assumes "fitz_pages w p = Inr pages" and "list_ex has_text pages"
  shows "snd (extract_from_pdf w p) = []"
proof (cases "direct_text_loop pages False []")
  case (Inl msg)
  with assms(1) show ?thesis by (simp add: extract_from_pdf_def)
next
  case (Inr r)
  obtain tf ft where r: "r = (tf, ft)" by (cases r)
  from direct_text_loop_found[OF Inr[unfolded r]] assms(2) have "tf" by simp
  with assms(1) Inr r show ?thesis by (simp add: extract_from_pdf_def)
qed

lemma pdf_text_layer_result:
  assumes "fitz_pages w p = Inr (map Inr texts)" and "list_ex has_text (map Inr texts)"
  shows "fst (extract_from_pdf w p) = join [CHR 0x0A, CHR 0x0A] (filter (\<lambda>t. t \<noteq> []) (map strip texts))"
  using assms by (simp add: extract_from_pdf_def direct_text_loop_all_read)

lemma pdf_ocr_first_five:
  assumes "fitz_pages w p = Inr (map Inr texts)" and "\<not> list_ex has_text (map Inr texts)"
    and "pdf_rasters w p = Inr rasters"
  shows "ocr_images (snd (extract_from_pdf w p)) = concat (map (\<lambda>pg. [pg, pg]) (take 5 rasters))"
proof -
  have "ocr_images (RasterizeCall p 1 5 # evs) = ocr_images evs" for evs
    by (simp add: ocr_images_def)
  with assms ocr_pages_loop_images[of w "take 5 rasters" "[]"] show ?thesis
    by (simp add: extract_from_pdf_def direct_text_loop_all_read convert_from_path_def
        case_prod_beta)
qed

text \<open>
  Claim C6.  For a PDF whose text layer opens: if at least one page yields non-empty trimmed
  text, the extractor asks nothing further of the outside (no rasterization, no OCR run), and,
  when every page reads without fault, the result is the non-empty trimmed page texts joined
  by blank lines.  If no page yields text, OCR runs on the first five rasterized pages at most,
  each under the two configurations, and on no other page.
\<close>

theorem pdf_ocr_only_without_text_layer:
  assumes "fitz_pages w p = Inr pages"
  shows "(list_ex has_text pages \<longrightarrow> snd (extract_from_pdf w p) = [])
     \<and> (\<forall>texts. pages = map Inr texts \<longrightarrow> list_ex has_text pages \<longrightarrow>
          fst (extract_from_pdf w p)
            = join [CHR 0x0A, CHR 0x0A] (filter (\<lambda>t. t \<noteq> []) (map strip texts)))
     \<and> (\<forall>texts rasters. pages = map Inr texts \<longrightarrow> \<not> list_ex has_text pages \<longrightarrow>
          pdf_rasters w p = Inr rasters \<longrightarrow>
          ocr_images (snd (extract_from_pdf w p)) = concat (map (\<lambda>pg. [pg, pg]) (take 5 rasters))
          \<and> set (ocr_images (snd (extract_from_pdf w p))) \<subseteq> set (take 5 rasters))"
proof (intro conjI allI impI)
  assume "list_ex has_text pages"
  from pdf_text_layer_no_events[OF assms this] show "snd (extract_from_pdf w p) = []" .
next
  fix texts
  assume "pages = map Inr texts" "list_ex has_text pages"
  with assms pdf_text_layer_result[of w p texts]
  show "fst (extract_from_pdf w p)
          = join [CHR 0x0A, CHR 0x0A] (filter (\<lambda>t. t \<noteq> []) (map strip texts))" by simp
next
  fix texts rasters
  assume a: "pages = map Inr texts" "\<not> list_ex has_text pages" "pdf_rasters w p = Inr rasters"
  with assms pdf_ocr_first_five[of w p texts rasters]
  show e: "ocr_images (snd (extract_from_pdf w p)) = concat (map (\<lambda>pg. [pg, pg]) (take 5 rasters))"
    by simp
  show "set (ocr_images (snd (extract_from_pdf w p))) \<subseteq> set (take 5 rasters)"
    unfolding e by auto
qed

section \<open>Archive extraction\<close>

lemma member_calls_append: "member_calls (xs @ ys) = member_calls xs @ member_calls ys"
  by (simp add: member_calls_def)

lemma member_calls_ocr_best: "member_calls (snd (ocr_best w img configs best)) = []"
  by (induction configs arbitrary: best) (simp_all add: member_calls_def Let_def case_prod_beta)

lemma member_calls_ocr_pages: "member_calls (snd (ocr_pages_loop w pages acc)) = []"
proof (induction pages arbitrary: acc)
  case Nil
  then show ?case by (simp add: member_calls_def)
next
  case (Cons pg pages)
  then show ?case
    by (simp add: Let_def member_calls_append member_calls_ocr_best case_prod_beta)
qed

lemma member_calls_image: "member_calls (snd (extract_from_image w p)) = []"
proof (cases "image_open w p")
  case (Inl msg)
  then show ?thesis by (simp add: extract_from_image_def member_calls_def)
next
  case (Inr img)
  with member_calls_ocr_best[of w img image_configs "[]"] show ?thesis
    by (simp add: extract_from_image_def Let_def case_prod_beta)
qed

lemma member_calls_pdf: "member_calls (snd (extract_from_pdf w p)) = []"
proof -
  have "member_calls (RasterizeCall p 1 5 # evs) = member_calls evs" for evs
    by (simp add: member_calls_def)
  moreover have "member_calls [] = []" by (simp add: member_calls_def)
  ultimately show ?thesis
    using member_calls_ocr_pages[of w _ "[]"]
    by (auto simp: extract_from_pdf_def case_prod_beta split: sum.splits)
qed

lemma member_calls_word: "member_calls (snd (extract_from_word w p)) = []"
  by (simp add: extract_from_word_def member_calls_def Let_def split: sum.splits)

lemma member_calls_excel: "member_calls (snd (extract_from_excel w p)) = []"
  by (simp add: extract_from_excel_def member_calls_def Let_def split: sum.splits)

lemma member_calls_member: "member_calls (snd (extract_text_with nested_archive w p)) = []"
  by (simp add: extract_text_with_def Let_def nested_archive_def member_calls_image member_calls_pdf
      member_calls_word member_calls_excel) (simp add: member_calls_def)

lemma member_call_not_archive:
  "splitext_ext (lower p) \<noteq> ''.zip'' \<Longrightarrow> extract_text_with h w p = extract_text_with h' w p"
  by (simp add: extract_text_with_def Let_def supported_archives_def)

lemma zip_member_loop_cong:
  "zip_member_loop (extract_text_with h w) tmp files acc
     = zip_member_loop (extract_text_with h' w) tmp files acc"
proof (induction files arbitrary: acc)
  case Nil
  then show ?case by simp
next
  case (Cons f files)
  show ?case
  proof (cases "splitext_ext (lower f) = ''.zip''")
    case True
    with Cons show ?thesis by (simp add: Let_def)
  next
    case False
    from member_call_not_archive[OF False, of h w h'] Cons False show ?thesis
      by (simp add: Let_def case_prod_beta)
  qed
qed

lemma extract_from_zip_recursive:
  "extract_from_zip w zip_path =
     (case zip_walk w zip_path of
        Inl msg \<Rightarrow> (''Error processing ZIP file: '' @ msg, [])
      | Inr walk \<Rightarrow>
          (case zip_member_loop (extract_text w) (temp_dir w)
                  (take 10 (extracted_files (temp_dir w) walk)) [] of
             (all_extracted_text, evs) \<Rightarrow>
               (if all_extracted_text \<noteq> [] then join [CHR 0x0A] all_extracted_text
                else ''No text could be extracted from files in ZIP archive'', evs)))"
proof -
  have t: "extract_text w = extract_text_with (extract_from_zip w) w"
    by (rule ext) (simp add: extract_text_def)
  have e: "zip_member_loop (extract_text w) tmp files acc
             = zip_member_loop (extract_text_with nested_archive w) tmp files acc" for tmp files acc
    unfolding t by (rule zip_member_loop_cong)
  show ?thesis unfolding extract_from_zip_def e by (rule refl)
qed

lemma zip_member_loop_calls:
  "member_calls (snd (zip_member_loop (extract_text_with nested_archive w) tmp files acc))
     = filter (\<lambda>f. splitext_ext (lower f) \<noteq> ''.zip'') files"
proof (induction files arbitrary: acc)
  case Nil
  then show ?case by (simp add: member_calls_def)
next
  case (Cons f files)
  have "member_calls (MemberCall f # evs) = f # member_calls evs" for evs
    by (simp add: member_calls_def)
  with Cons member_calls_member[of w f] show ?case
    by (simp add: Let_def member_calls_append case_prod_beta)
qed

lemma extract_from_zip_calls:
  "member_calls (snd (extract_from_zip w p)) =
     (case zip_walk w p of
        Inl _ \<Rightarrow> []
      | Inr walk \<Rightarrow> filter (\<lambda>f. splitext_ext (lower f) \<noteq> ''.zip'')
                     (take 10 (extracted_files (temp_dir w) walk)))"
proof (cases "zip_walk w p")
  case (Inl msg)
  then show ?thesis by (simp add: extract_from_zip_def member_calls_def)
next
  case (Inr walk)
  with zip_member_loop_calls[of w "temp_dir w" "take 10 (extracted_files (temp_dir w) walk)" "[]"]
  show ?thesis by (simp add: extract_from_zip_def case_prod_beta)
qed

lemma char_lower_slash: "(char_lower c = CHR ''/'') = (c = CHR ''/'')"
  by (auto simp: char_lower_def uppercase_letters_def lowercase_letters_def split: option.splits if_splits)

lemma char_lower_slash': "(CHR ''/'' = char_lower c) = (CHR ''/'' = c)"
  using char_lower_slash[of c] by auto

lemma slash_in_lower: "(CHR ''/'' \<in> set (lower s)) = (CHR ''/'' \<in> set s)"
  by (induction s) (simp_all add: lower_def char_lower_slash')

lemma takeWhile_no_slash:
  assumes "CHR ''/'' \<notin> set xs"
  shows "takeWhile (\<lambda>c. c \<noteq> CHR ''/'') (xs @ ys) = xs @ takeWhile (\<lambda>c. c \<noteq> CHR ''/'') ys"
  using assms by (induction xs) auto

lemma basename_of_join: "CHR ''/'' \<notin> set fname \<Longrightarrow> basename_of (root @ ''/'' @ fname) = fname"
proof -
  assume "CHR ''/'' \<notin> set fname"
  then have "CHR ''/'' \<notin> set (rev fname)" by simp
  from takeWhile_no_slash[OF this, of "''/'' @ rev root"] show ?thesis
    by (simp add: basename_of_def)
qed

lemma basename_of_plain: "CHR ''/'' \<notin> set fname \<Longrightarrow> basename_of fname = fname"
proof -
  assume "CHR ''/'' \<notin> set fname"
  then have "takeWhile (\<lambda>c. c \<noteq> CHR ''/'') (rev fname) = rev fname"
    by (induction fname rule: rev_induct) auto
  then show ?thesis by (simp only: basename_of_def rev_rev_ident)
qed

lemma splitext_ext_join:
  assumes "CHR ''/'' \<notin> set fname"
  shows "splitext_ext (lower (root @ ''/'' @ fname)) = splitext_ext (lower fname)"
proof -
  have l: "lower (root @ ''/'' @ fname) = lower root @ ''/'' @ lower fname"
    by (simp add: lower_def char_lower_def uppercase_letters_def lowercase_letters_def)
  from assms have n: "CHR ''/'' \<notin> set (lower fname)" by (simp add: slash_in_lower)
  from basename_of_join[OF n, of "lower root"] basename_of_plain[OF n] l show ?thesis
    by (simp add: splitext_ext_def)
qed

lemma extracted_files_ext:
  assumes "walk_names_ok walk" and "m \<in> set (extracted_files tmp walk)"
  shows "splitext_ext (lower m) \<in> set all_supported \<and> splitext_ext (lower m) \<noteq> ''.zip''"
proof -
  from assms(2) obtain subdir files fname where
    e: "(subdir, files) \<in> set walk" and f: "fname \<in> set files"
    and ok: "splitext_ext (lower fname) \<in> set all_supported" "splitext_ext (lower fname) \<noteq> ''.zip''"
    and m: "m = walk_root tmp subdir @ ''/'' @ fname"
    by (auto simp: extracted_files_def)
  from assms(1) e f have "CHR ''/'' \<notin> set fname"
    by (auto simp: walk_names_ok_def list_all_iff)
  from splitext_ext_join[OF this, of "walk_root tmp subdir"] m ok show ?thesis by simp
qed

text \<open>
  Claim C7.  The members of an archive that the extractor runs the extraction on are at most
  ten, and none of them has the extension \<^verbatim>\<open>.zip\<close>.  When the walk yields file names, they are
  exactly the first ten supported files that are no archives, in walk order, so each has an
  extension of the supported set.
\<close>

theorem zip_members_processed:
  "length (member_calls (snd (extract_from_zip w p))) \<le> 10
   \<and> (\<forall>m \<in> set (member_calls (snd (extract_from_zip w p))). splitext_ext (lower m) \<noteq> ''.zip'')
   \<and> (\<forall>walk. zip_walk w p = Inr walk \<longrightarrow> walk_names_ok walk \<longrightarrow>
        member_calls (snd (extract_from_zip w p)) = take 10 (extracted_files (temp_dir w) walk)
        \<and> (\<forall>m \<in> set (member_calls (snd (extract_from_zip w p))).
              splitext_ext (lower m) \<in> set all_supported))"
proof (intro conjI allI impI ballI)
  show "length (member_calls (snd (extract_from_zip w p))) \<le> 10"
  proof (cases "zip_walk w p")
    case (Inl msg)
    then show ?thesis by (simp add: extract_from_zip_calls)
  next
    case (Inr walk)
    have "length (filter (\<lambda>f. splitext_ext (lower f) \<noteq> ''.zip'')
                   (take 10 (extracted_files (temp_dir w) walk)))
            \<le> length (take 10 (extracted_files (temp_dir w) walk))"
      by (rule length_filter_le)
    with Inr show ?thesis by (simp add: extract_from_zip_calls)
  qed
next
  fix m
  assume "m \<in> set (member_calls (snd (extract_from_zip w p)))"
  then show "splitext_ext (lower m) \<noteq> ''.zip''"
    by (auto simp: extract_from_zip_calls split: sum.splits)
next
  fix walk
  assume a: "zip_walk w p = Inr walk" "walk_names_ok walk"
  have "filter (\<lambda>f. splitext_ext (lower f) \<noteq> ''.zip'') (take 10 (extracted_files (temp_dir w) walk))
          = take 10 (extracted_files (temp_dir w) walk)"
  proof (rule filter_True, rule ballI)
    fix f
    assume "f \<in> set (take 10 (extracted_files (temp_dir w) walk))"
    then have "f \<in> set (extracted_files (temp_dir w) walk)" by (rule in_set_takeD)
    from extracted_files_ext[OF a(2) this] show "splitext_ext (lower f) \<noteq> ''.zip''" by simp
  qed
  with a show e: "member_calls (snd (extract_from_zip w p)) = take 10 (extracted_files (temp_dir w) walk)"
    by (simp add: extract_from_zip_calls)
  fix m
  assume "m \<in> set (member_calls (snd (extract_from_zip w p)))"
  with e have "m \<in> set (extracted_files (temp_dir w) walk)" by (auto dest: in_set_takeD)
  from extracted_files_ext[OF a(2) this] show "splitext_ext (lower m) \<in> set all_supported" by simp
qed


end
